theory Spec2Isabelle
  imports Main
begin

section \<open>Rectangles and the Rectangle Merger (imageProcessor: \<open>mergeRects\<close>)\<close>

text \<open>
  The interface \<open>Rect\<close> of the image processor: four pixel coordinates. Coordinates are
  JavaScript numbers that only ever hold integers here, so they are modelled as \<open>int\<close>.
\<close>

record Rect =
  minX :: int
  maxX :: int
  minY :: int
  maxY :: int

text \<open>
  \<open>Math.max(0, current.minX - other.maxX, other.minX - current.maxX)\<close> and its Y twin,
  computed inside the inner loop of \<open>mergeRects\<close>.
\<close>

definition xDist :: "Rect \<Rightarrow> Rect \<Rightarrow> int" where
  "xDist current other =
     max 0 (max (minX current - maxX other) (minX other - maxX current))"

definition yDist :: "Rect \<Rightarrow> Rect \<Rightarrow> int" where
  "yDist current other =
     max 0 (max (minY current - maxY other) (minY other - maxY current))"

text \<open>
  The body of the inner loop \<open>for (let j = i + 1; j < merged.length; j++)\<close>. The loop state
  is \<open>(current, visited, changed)\<close>; \<open>visited\<close> is the \<open>Set<number>\<close> of indices.
\<close>

definition mergeInner ::
  "Rect list \<Rightarrow> int \<Rightarrow> nat \<Rightarrow> Rect \<times> nat set \<times> bool \<Rightarrow> Rect \<times> nat set \<times> bool" where
  "mergeInner merged distanceThreshold j s =
     (case s of (current, visited, changed) \<Rightarrow>
        if j \<in> visited then s
        else
          let other = merged ! j in
          if xDist current other < distanceThreshold \<and> yDist current other < distanceThreshold
          then (\<lparr>minX = min (minX current) (minX other),
                 maxX = max (maxX current) (maxX other),
                 minY = min (minY current) (minY other),
                 maxY = max (maxY current) (maxY other)\<rparr>,
                insert j visited, True)
          else s)"

text \<open>
  The body of the outer loop \<open>for (let i = 0; i < merged.length; i++)\<close>. The loop state is
  \<open>(newMerged, visited, changed)\<close>; \<open>newMerged.push(current)\<close> appends.
\<close>

definition mergeOuter ::
  "Rect list \<Rightarrow> int \<Rightarrow> nat \<Rightarrow> Rect list \<times> nat set \<times> bool \<Rightarrow> Rect list \<times> nat set \<times> bool" where
  "mergeOuter merged distanceThreshold i s =
     (case s of (newMerged, visited, changed) \<Rightarrow>
        if i \<in> visited then s
        else
          (case fold (mergeInner merged distanceThreshold) [Suc i ..< length merged]
                  (merged ! i, insert i visited, changed) of
             (current, visited', changed') \<Rightarrow> (newMerged @ [current], visited', changed')))"

text \<open>One pass of the \<open>while (changed)\<close> loop: the new list and the flag \<open>changed\<close>.\<close>

definition mergePass :: "Rect list \<Rightarrow> int \<Rightarrow> Rect list \<times> bool" where
  "mergePass merged distanceThreshold =
     (case fold (mergeOuter merged distanceThreshold) [0 ..< length merged] ([], {}, False) of
        (newMerged, visited, changed) \<Rightarrow> (newMerged, changed))"

subsection \<open>Predicates used to state the properties of the merger\<close>

text \<open>\<open>rectContains outer inner\<close>: the rectangle \<open>inner\<close> lies inside \<open>outer\<close>.\<close>

definition rectContains :: "Rect \<Rightarrow> Rect \<Rightarrow> bool" where
  "rectContains outer inner \<longleftrightarrow>
     minX outer \<le> minX inner \<and> maxX inner \<le> maxX outer \<and>
     minY outer \<le> minY inner \<and> maxY inner \<le> maxY outer"

text \<open>The invariant of the data model: \<open>minX \<le> maxX\<close> and \<open>minY \<le> maxY\<close>.\<close>

definition validRect :: "Rect \<Rightarrow> bool" where
  "validRect r \<longleftrightarrow> minX r \<le> maxX r \<and> minY r \<le> maxY r"

text \<open>The test of the inner loop: both gaps are below the threshold.\<close>

definition isClose :: "Rect \<Rightarrow> Rect \<Rightarrow> int \<Rightarrow> bool" where
  "isClose current other t \<longleftrightarrow> xDist current other < t \<and> yDist current other < t"

text \<open>No pair of list positions holds two rectangles that the inner loop would merge.\<close>

definition noClosePair :: "Rect list \<Rightarrow> int \<Rightarrow> bool" where
  "noClosePair rs t \<longleftrightarrow>
     (\<forall>k j. k < j \<and> j < length rs \<longrightarrow> \<not> isClose (rs ! k) (rs ! j) t)"

text \<open>Invariants of the inner and of the outer loop of one pass.\<close>

definition innerInv ::
  "Rect list \<Rightarrow> int \<Rightarrow> Rect \<times> nat set \<times> bool \<Rightarrow> nat \<Rightarrow> nat \<Rightarrow> Rect \<times> nat set \<times> bool \<Rightarrow> bool" where
  "innerInv merged t s0 lo j s =
     (case s0 of (cur0, vis0, ch0) \<Rightarrow> case s of (cur, vis, ch) \<Rightarrow>
        vis0 \<subseteq> vis \<and> vis \<subseteq> vis0 \<union> {lo ..< j} \<and> ch = (ch0 \<or> vis \<noteq> vis0) \<and>
        rectContains cur cur0 \<and> (\<forall>k \<in> vis - vis0. rectContains cur (merged ! k)) \<and>
        (vis = vis0 \<longrightarrow> cur = cur0 \<and> (\<forall>k \<in> {lo ..< j} - vis0. \<not> isClose cur0 (merged ! k) t)) \<and>
        (validRect cur0 \<and> (\<forall>r \<in> set merged. validRect r) \<longrightarrow> validRect cur))"

definition outerInv ::
  "Rect list \<Rightarrow> int \<Rightarrow> nat \<Rightarrow> Rect list \<times> nat set \<times> bool \<Rightarrow> bool" where
  "outerInv merged t i s =
     (case s of (newMerged, vis, ch) \<Rightarrow>
        finite vis \<and> {..< i} \<subseteq> vis \<and> vis \<subseteq> {..< length merged} \<and>
        length newMerged \<le> card vis \<and> (ch \<longrightarrow> length newMerged < card vis) \<and>
        (\<forall>k \<in> vis. \<exists>r \<in> set newMerged. rectContains r (merged ! k)) \<and>
        (\<not> ch \<longrightarrow> newMerged = take i merged \<and> vis = {..< i} \<and>
           (\<forall>k < i. \<forall>j. k < j \<and> j < length merged \<longrightarrow> \<not> isClose (merged ! k) (merged ! j) t)) \<and>
        ((\<forall>r \<in> set merged. validRect r) \<longrightarrow> (\<forall>r \<in> set newMerged. validRect r)))"

subsection \<open>One pass: either the list shrinks, or it is returned as it is\<close>

lemma fold_upt_inv:
  assumes "a \<le> b" and "I a s"
    and "\<And>i s. a \<le> i \<Longrightarrow> i < b \<Longrightarrow> I i s \<Longrightarrow> I (Suc i) (f i s)"
  shows "I b (fold f [a ..< b] s)"
  using assms
proof (induction b)
  case 0
  then show ?case by simp
next
  case (Suc b)
  show ?case
  proof (cases "a = Suc b")
    case True
    with Suc.prems show ?thesis by simp
  next
    case False
    with Suc.prems have ab: "a \<le> b" by simp
    have "I b (fold f [a ..< b] s)"
      using Suc.IH [OF ab Suc.prems(2)] Suc.prems(3) by simp
    then have "I (Suc b) (f b (fold f [a ..< b] s))"
      using Suc.prems(3) ab by simp
    with ab show ?thesis by simp
  qed
qed

lemma rectContains_refl: "rectContains r r"
  by (simp add: rectContains_def)

lemma rectContains_trans: "rectContains a b \<Longrightarrow> rectContains b c \<Longrightarrow> rectContains a c"
  by (auto simp: rectContains_def)

lemma innerInv_init: "innerInv merged t s0 lo lo s0"
  by (cases s0) (simp add: innerInv_def rectContains_refl)

lemma innerInv_step:
  assumes "lo \<le> j" and "j < length merged" and "innerInv merged t s0 lo j s"
  shows "innerInv merged t s0 lo (Suc j) (mergeInner merged t j s)"
proof -
  obtain cur0 vis0 ch0 where s0: "s0 = (cur0, vis0, ch0)" by (cases s0)
  obtain cur vis ch where s: "s = (cur, vis, ch)" by (cases s)
  note inv = assms(3) [unfolded s0 s innerInv_def, simplified]
  show ?thesis
  proof (cases "j \<notin> vis \<and> isClose cur (merged ! j) t")
    case False
    then have eq: "mergeInner merged t j s = s"
      by (auto simp: mergeInner_def s isClose_def Let_def)
    have "\<forall>k \<in> {lo ..< Suc j} - vis0. vis = vis0 \<longrightarrow> \<not> isClose cur0 (merged ! k) t"
    proof (intro ballI impI)
      fix k assume k: "k \<in> {lo ..< Suc j} - vis0" and v: "vis = vis0"
      show "\<not> isClose cur0 (merged ! k) t"
      proof (cases "k = j")
        case True
        with False k v inv show ?thesis by auto
      next
        case False
        with k have "k \<in> {lo ..< j} - vis0" by auto
        with inv v show ?thesis by blast
      qed
    qed
    with inv show ?thesis
      unfolding eq unfolding s0 s innerInv_def
      by (auto simp: less_Suc_eq)
  next
    case True
    define u where "u = \<lparr>minX = min (minX cur) (minX (merged ! j)),
                 maxX = max (maxX cur) (maxX (merged ! j)),
                 minY = min (minY cur) (minY (merged ! j)),
                 maxY = max (maxY cur) (maxY (merged ! j))\<rparr>"
    from True have eq: "mergeInner merged t j s = (u, insert j vis, True)"
      by (auto simp: mergeInner_def s isClose_def Let_def u_def)
    have uc: "rectContains u cur" and uj: "rectContains u (merged ! j)"
      by (auto simp: rectContains_def u_def)
    have uv: "validRect cur \<Longrightarrow> validRect u"
      by (auto simp: validRect_def u_def)
    from True inv have jv0: "j \<notin> vis0" by auto
    have c1: "rectContains u cur0" using uc inv rectContains_trans by blast
    have c2: "\<forall>k \<in> insert j vis - vis0. rectContains u (merged ! k)"
      using uc uj inv rectContains_trans by blast
    have ne: "insert j vis \<noteq> vis0" using jv0 by auto
    from inv have sub: "vis0 \<subseteq> insert j vis" "insert j vis \<subseteq> vis0 \<union> {lo ..< Suc j}"
      using assms(1) by auto
    show ?thesis
      unfolding eq unfolding s0 innerInv_def
      using c1 c2 ne sub uv inv by simp
  qed
qed

lemma innerInv_fold:
  assumes "lo \<le> length merged"
  shows "innerInv merged t s0 lo (length merged) (fold (mergeInner merged t) [lo ..< length merged] s0)"
proof (rule fold_upt_inv [where I = "innerInv merged t s0 lo" and f = "mergeInner merged t"])
  show "lo \<le> length merged" by (rule assms)
  show "innerInv merged t s0 lo lo s0" by (rule innerInv_init)
  show "\<And>i s. lo \<le> i \<Longrightarrow> i < length merged \<Longrightarrow> innerInv merged t s0 lo i s \<Longrightarrow>
          innerInv merged t s0 lo (Suc i) (mergeInner merged t i s)"
    by (rule innerInv_step)
qed

lemma mergeInner_fold_id:
  assumes "\<forall>j. lo \<le> j \<and> j < length merged \<and> j \<notin> vis0 \<longrightarrow> \<not> isClose cur0 (merged ! j) t"
    and "lo \<le> length merged"
  shows "fold (mergeInner merged t) [lo ..< length merged] (cur0, vis0, ch0) = (cur0, vis0, ch0)"
proof -
  have "(\<lambda>j s. s = (cur0, vis0, ch0)) (length merged)
          (fold (mergeInner merged t) [lo ..< length merged] (cur0, vis0, ch0))"
  proof (rule fold_upt_inv [where I = "\<lambda>j s. s = (cur0, vis0, ch0)"])
    show "lo \<le> length merged" by (rule assms(2))
  next
    show "(cur0, vis0, ch0) = (cur0, vis0, ch0)" by simp
  next
    fix i s assume "lo \<le> i" "i < length merged" "s = (cur0, vis0, ch0)"
    with assms(1) show "mergeInner merged t i s = (cur0, vis0, ch0)"
      by (auto simp: mergeInner_def isClose_def Let_def)
  qed
  then show ?thesis by simp
qed

lemma outerInv_init: "outerInv merged t 0 ([], {}, False)"
  by (simp add: outerInv_def)

lemma outerInv_step:
  assumes i: "i < length merged" and inv0: "outerInv merged t i s"
  shows "outerInv merged t (Suc i) (mergeOuter merged t i s)"
proof -
  obtain newMerged vis ch where s: "s = (newMerged, vis, ch)" by (cases s)
  note inv = inv0 [unfolded s outerInv_def, simplified]
  show ?thesis
  proof (cases "i \<in> vis")
    case True
    then have eq: "mergeOuter merged t i s = s" by (simp add: mergeOuter_def s)
    from True inv have "ch" by auto
    with True inv show ?thesis
      unfolding eq unfolding s outerInv_def by (auto simp: less_Suc_eq)
  next
    case False
    obtain cur' vis' ch' where
      f: "fold (mergeInner merged t) [Suc i ..< length merged] (merged ! i, insert i vis, ch)
            = (cur', vis', ch')"
      by (cases "fold (mergeInner merged t) [Suc i ..< length merged] (merged ! i, insert i vis, ch)")
    from False have eq: "mergeOuter merged t i s = (newMerged @ [cur'], vis', ch')"
      by (simp add: mergeOuter_def s f)
    have "innerInv merged t (merged ! i, insert i vis, ch) (Suc i) (length merged) (cur', vis', ch')"
      using innerInv_fold [of "Suc i" merged t "(merged ! i, insert i vis, ch)"] i f by simp
    note iv = this [unfolded innerInv_def, simplified]
    from iv have sub1: "insert i vis \<subseteq> vis'" and sub2: "vis' \<subseteq> insert i vis \<union> {Suc i ..< length merged}"
      by auto
    from inv have fin: "finite vis" by simp
    from sub2 fin have fin': "finite vis'" by (meson finite_Un finite_atLeastLessThan finite_insert finite_subset)
    have lo: "{..< Suc i} \<subseteq> vis'" using inv sub1 by (auto simp: less_Suc_eq)
    have hi: "vis' \<subseteq> {..< length merged}" using inv sub2 i by auto
    have card1: "card (insert i vis) = Suc (card vis)" using False fin by simp
    have card2: "card (insert i vis) \<le> card vis'" using sub1 fin' by (rule card_mono [rotated])
    have card3: "vis' \<noteq> insert i vis \<Longrightarrow> card (insert i vis) < card vis'"
    proof -
      assume "vis' \<noteq> insert i vis"
      with sub1 have "insert i vis \<subset> vis'" by blast
      with fin' show ?thesis by (rule psubset_card_mono)
    qed
    have len: "length (newMerged @ [cur']) \<le> card vis'"
      using inv card1 card2 by simp
    have lench: "ch' \<longrightarrow> length (newMerged @ [cur']) < card vis'"
    proof
      assume "ch'"
      with iv have "ch \<or> vis' \<noteq> insert i vis" by simp
      then show "length (newMerged @ [cur']) < card vis'"
      proof
        assume ch
        with inv have "length newMerged < card vis" by simp
        with card1 card2 show ?thesis by simp
      next
        assume "vis' \<noteq> insert i vis"
        from card3 [OF this] card1 inv show ?thesis by simp
      qed
    qed
    have cont: "\<forall>k \<in> vis'. \<exists>r \<in> set (newMerged @ [cur']). rectContains r (merged ! k)"
    proof
      fix k assume k: "k \<in> vis'"
      show "\<exists>r \<in> set (newMerged @ [cur']). rectContains r (merged ! k)"
      proof (cases "k \<in> vis")
        case True
        with inv show ?thesis by auto
      next
        case kv: False
        show ?thesis
        proof (cases "k = i")
          case True
          with iv show ?thesis by auto
        next
          case False
          with kv k have "k \<in> vis' - insert i vis" by simp
          with iv have "rectContains cur' (merged ! k)" by blast
          then show ?thesis by auto
        qed
      qed
    qed
    have unch: "\<not> ch' \<longrightarrow> newMerged @ [cur'] = take (Suc i) merged \<and> vis' = {..< Suc i} \<and>
           (\<forall>k < Suc i. \<forall>j. k < j \<and> j < length merged \<longrightarrow> \<not> isClose (merged ! k) (merged ! j) t)"
    proof
      assume nch: "\<not> ch'"
      with iv have nc: "\<not> ch" and ve: "vis' = insert i vis" by auto
      from nc inv have nm: "newMerged = take i merged" and v: "vis = {..< i}"
        and old: "\<forall>k < i. \<forall>j. k < j \<and> j < length merged \<longrightarrow> \<not> isClose (merged ! k) (merged ! j) t"
        by auto
      from ve iv have ce: "cur' = merged ! i"
        and new: "\<forall>k \<in> {Suc i ..< length merged} - insert i vis. \<not> isClose (merged ! i) (merged ! k) t"
        by auto
      have a: "newMerged @ [cur'] = take (Suc i) merged"
        using nm ce i by (simp add: take_Suc_conv_app_nth)
      have b: "vis' = {..< Suc i}" using ve v by (auto simp: less_Suc_eq)
      have c: "\<forall>k < Suc i. \<forall>j. k < j \<and> j < length merged \<longrightarrow> \<not> isClose (merged ! k) (merged ! j) t"
      proof (intro allI impI)
        fix k j assume k: "k < Suc i" and j: "k < j \<and> j < length merged"
        show "\<not> isClose (merged ! k) (merged ! j) t"
        proof (cases "k = i")
          case True
          with j v have "j \<in> {Suc i ..< length merged} - insert i vis" by auto
          with new True show ?thesis by blast
        next
          case False
          with k have "k < i" by simp
          with old j show ?thesis by blast
        qed
      qed
      from a b c show "newMerged @ [cur'] = take (Suc i) merged \<and> vis' = {..< Suc i} \<and>
           (\<forall>k < Suc i. \<forall>j. k < j \<and> j < length merged \<longrightarrow> \<not> isClose (merged ! k) (merged ! j) t)"
        by simp
    qed
    have val: "(\<forall>r \<in> set merged. validRect r) \<longrightarrow> (\<forall>r \<in> set (newMerged @ [cur']). validRect r)"
    proof
      assume a: "\<forall>r \<in> set merged. validRect r"
      with i have "validRect (merged ! i)" by simp
      with a iv have "validRect cur'" by simp
      with a inv show "\<forall>r \<in> set (newMerged @ [cur']). validRect r" by auto
    qed
    show ?thesis
      unfolding eq unfolding outerInv_def
      using fin' lo hi len lench cont unch val by simp
  qed
qed

lemma outerInv_fold:
  "outerInv merged t (length merged)
     (fold (mergeOuter merged t) [0 ..< length merged] ([], {}, False))"
proof (rule fold_upt_inv [where I = "outerInv merged t" and f = "mergeOuter merged t"])
  show "0 \<le> length merged" by simp
  show "outerInv merged t 0 ([], {}, False)" by (rule outerInv_init)
  show "\<And>i s. 0 \<le> i \<Longrightarrow> i < length merged \<Longrightarrow> outerInv merged t i s \<Longrightarrow>
          outerInv merged t (Suc i) (mergeOuter merged t i s)"
    by (rule outerInv_step)
qed

lemma mergePass_changed_length:
  assumes "mergePass merged t = (newMerged, True)"
  shows "length newMerged < length merged"
proof -
  obtain vis where f: "fold (mergeOuter merged t) [0 ..< length merged] ([], {}, False) = (newMerged, vis, True)"
    using assms by (auto simp: mergePass_def split: prod.splits)
  from outerInv_fold [of merged t] have inv: "outerInv merged t (length merged) (newMerged, vis, True)"
    by (simp add: f)
  note inv = inv [unfolded outerInv_def, simplified]
  from inv have "vis = {..< length merged}" by auto
  with inv show ?thesis by simp
qed

lemma mergePass_unchanged:
  assumes "mergePass merged t = (newMerged, False)"
  shows "newMerged = merged \<and> noClosePair merged t"
proof -
  obtain vis where f: "fold (mergeOuter merged t) [0 ..< length merged] ([], {}, False) = (newMerged, vis, False)"
    using assms by (auto simp: mergePass_def split: prod.splits)
  from outerInv_fold [of merged t] have inv: "outerInv merged t (length merged) (newMerged, vis, False)"
    by (simp add: f)
  note inv = inv [unfolded outerInv_def, simplified]
  from inv show ?thesis by (auto simp: noClosePair_def)
qed

lemma mergePass_contains:
  assumes "mergePass merged t = (newMerged, ch)" and "r \<in> set merged"
  shows "\<exists>r' \<in> set newMerged. rectContains r' r"
proof -
  obtain vis where f: "fold (mergeOuter merged t) [0 ..< length merged] ([], {}, False) = (newMerged, vis, ch)"
    using assms by (auto simp: mergePass_def split: prod.splits)
  from outerInv_fold [of merged t] have inv: "outerInv merged t (length merged) (newMerged, vis, ch)"
    by (simp add: f)
  note inv = inv [unfolded outerInv_def, simplified]
  from inv have v: "vis = {..< length merged}" by auto
  from assms(2) obtain k where "k < length merged" "merged ! k = r" by (auto simp: in_set_conv_nth)
  with v inv show ?thesis by auto
qed

lemma mergePass_valid:
  assumes "mergePass merged t = (newMerged, ch)" and "\<forall>r \<in> set merged. validRect r"
  shows "\<forall>r \<in> set newMerged. validRect r"
proof -
  obtain vis where f: "fold (mergeOuter merged t) [0 ..< length merged] ([], {}, False) = (newMerged, vis, ch)"
    using assms by (auto simp: mergePass_def split: prod.splits)
  from outerInv_fold [of merged t] have inv: "outerInv merged t (length merged) (newMerged, vis, ch)"
    by (simp add: f)
  note inv = inv [unfolded outerInv_def, simplified]
  from inv assms(2) show ?thesis by blast
qed

lemma mergePass_fixed:
  assumes "noClosePair merged t"
  shows "mergePass merged t = (merged, False)"
proof -
  have "(\<lambda>i s. s = (take i merged, {..< i}, False)) (length merged)
          (fold (mergeOuter merged t) [0 ..< length merged] ([], {}, False))"
  proof (rule fold_upt_inv [where I = "\<lambda>i s. s = (take i merged, {..< i}, False)"])
    show "0 \<le> length merged" by simp
    show "([], {}, False) = (take 0 merged, {..< (0::nat)}, False)" by simp
  next
    fix i s assume i: "i < length merged" and s: "s = (take i merged, {..< i}, False)"
    have "fold (mergeInner merged t) [Suc i ..< length merged] (merged ! i, insert i {..< i}, False)
            = (merged ! i, insert i {..< i}, False)"
    proof (rule mergeInner_fold_id)
      show "\<forall>j. Suc i \<le> j \<and> j < length merged \<and> j \<notin> insert i {..< i}
               \<longrightarrow> \<not> isClose (merged ! i) (merged ! j) t"
        using assms by (auto simp: noClosePair_def)
      show "Suc i \<le> length merged" using i by simp
    qed
    moreover have "insert i {..< i} = {..< Suc i}" by (auto simp: less_Suc_eq)
    ultimately show "mergeOuter merged t i s = (take (Suc i) merged, {..< Suc i}, False)"
      using i by (simp add: s mergeOuter_def take_Suc_conv_app_nth)
  qed
  then show ?thesis by (simp add: mergePass_def)
qed

subsection \<open>The fixed-point loop\<close>

text \<open>
  \<open>while (changed) { ... merged = newMerged }\<close>: \<open>changed\<close> starts as \<open>true\<close>, so the first
  pass always runs, and the loop goes on as long as a pass has merged something. It terminates
  because such a pass returns a shorter list.
\<close>

function mergeLoop :: "Rect list \<Rightarrow> int \<Rightarrow> Rect list" where
  "mergeLoop merged distanceThreshold =
     (case mergePass merged distanceThreshold of
        (newMerged, changed) \<Rightarrow>
          if changed then mergeLoop newMerged distanceThreshold else newMerged)"
  by pat_completeness auto
termination
  by (relation "measure (\<lambda>(merged, distanceThreshold). length merged)")
    (simp_all add: mergePass_changed_length)

declare mergeLoop.simps [simp del]

definition mergeRects :: "Rect list \<Rightarrow> int \<Rightarrow> Rect list" where
  "mergeRects rects distanceThreshold = mergeLoop rects distanceThreshold"

section \<open>Pixel buffers and the background predicate\<close>

text \<open>
  A typed array (\<open>Uint8Array\<close>, \<open>Uint8ClampedArray\<close>) is a list of numbers. Reading outside
  the array gives \<open>undefined\<close> (here \<open>None\<close>); writing outside the array does nothing.
\<close>

definition arrayGet :: "nat list \<Rightarrow> int \<Rightarrow> nat option" where
  "arrayGet a i = (if 0 \<le> i \<and> i < int (length a) then Some (a ! nat i) else None)"

definition arraySet :: "nat list \<Rightarrow> int \<Rightarrow> nat \<Rightarrow> nat list" where
  "arraySet a i v = (if 0 \<le> i \<and> i < int (length a) then a[nat i := v] else a)"

text \<open>Truthiness of an array element, and comparisons, which are false on \<open>undefined\<close>.\<close>

definition truthy :: "nat option \<Rightarrow> bool" where
  "truthy v = (case v of None \<Rightarrow> False | Some n \<Rightarrow> n \<noteq> 0)"

definition jsLess :: "nat option \<Rightarrow> nat \<Rightarrow> bool" where
  "jsLess v n = (case v of None \<Rightarrow> False | Some m \<Rightarrow> m < n)"

definition jsGreater :: "nat option \<Rightarrow> nat \<Rightarrow> bool" where
  "jsGreater v n = (case v of None \<Rightarrow> False | Some m \<Rightarrow> m > n)"

text \<open>\<open>isBackground(r, g, b, a)\<close>: transparent, or near white.\<close>

definition isBackground :: "nat option \<Rightarrow> nat option \<Rightarrow> nat option \<Rightarrow> nat option \<Rightarrow> bool" where
  "isBackground r g b a =
     (if jsLess a 20 then True
      else jsGreater r 240 \<and> jsGreater g 240 \<and> jsGreater b 240)"

text \<open>\<open>getIdx(x, y) = (y * width + x) * 4\<close>, the offset of a pixel's red channel.\<close>

definition getIdx :: "int \<Rightarrow> int \<Rightarrow> int \<Rightarrow> int" where
  "getIdx width x y = (y * width + x) * 4"

text \<open>\<open>isBackground(data[idx], data[idx + 1], data[idx + 2], data[idx + 3])\<close>.\<close>

definition backgroundAt :: "nat list \<Rightarrow> int \<Rightarrow> bool" where
  "backgroundAt data idx =
     isBackground (arrayGet data idx) (arrayGet data (idx + 1))
       (arrayGet data (idx + 2)) (arrayGet data (idx + 3))"

section \<open>The Component Detector (the scan loop of \<open>processStickerSheet\<close>)\<close>

text \<open>
  The body of \<open>for (const [nx, ny] of neighbors)\<close>; the state is the stack (its head is the
  top) and the array \<open>visited\<close>.
\<close>

definition visitNeighbor ::
  "int \<Rightarrow> int \<Rightarrow> nat list \<Rightarrow> int \<times> int \<Rightarrow> (int \<times> int) list \<times> nat list
     \<Rightarrow> (int \<times> int) list \<times> nat list" where
  "visitNeighbor width height data n s =
     (case n of (nx, ny) \<Rightarrow> case s of (stack, visited) \<Rightarrow>
        if nx \<ge> 0 \<and> nx < width \<and> ny \<ge> 0 \<and> ny < height then
          let nVisitIdx = ny * width + nx in
          if arrayGet visited nVisitIdx = Some 0 then
            let nIdx = getIdx width nx ny in
            if \<not> backgroundAt data nIdx
            then ((nx, ny) # stack, arraySet visited nVisitIdx 1)
            else s
          else s
        else s)"

text \<open>The four neighbours, in the order of the source.\<close>

definition visitNeighbors ::
  "int \<Rightarrow> int \<Rightarrow> nat list \<Rightarrow> int \<Rightarrow> int \<Rightarrow> (int \<times> int) list \<times> nat list
     \<Rightarrow> (int \<times> int) list \<times> nat list" where
  "visitNeighbors width height data cx cy s =
     (let neighbors = [(cx + 1, cy), (cx - 1, cy), (cx, cy + 1), (cx, cy - 1)]
      in fold (visitNeighbor width height data) neighbors s)"

text \<open>The four updates of \<open>minX\<close>, \<open>maxX\<close>, \<open>minY\<close>, \<open>maxY\<close> at a popped pixel.\<close>

definition growBox :: "int \<Rightarrow> int \<Rightarrow> Rect \<Rightarrow> Rect" where
  "growBox cx cy box =
     (let box1 = (if cx < minX box then box\<lparr>minX := cx\<rparr> else box);
          box2 = (if cx > maxX box1 then box1\<lparr>maxX := cx\<rparr> else box1);
          box3 = (if cy < minY box2 then box2\<lparr>minY := cy\<rparr> else box2);
          box4 = (if cy > maxY box3 then box3\<lparr>maxY := cy\<rparr> else box3)
      in box4)"

text \<open>The number of cells of \<open>visited\<close> that are still zero; it bounds the flood fill.\<close>

definition zeros :: "nat list \<Rightarrow> nat" where
  "zeros xs = card {i. i < length xs \<and> xs ! i = 0}"

lemma zeros_arraySet:
  assumes "arrayGet visited i = Some 0"
  shows "Suc (zeros (arraySet visited i 1)) = zeros visited"
proof -
  from assms have i: "0 \<le> i" "nat i < length visited" "visited ! nat i = 0"
    by (auto simp: arrayGet_def split: if_splits)
  let ?S = "{k. k < length visited \<and> visited ! k = 0}"
  have "{k. k < length (arraySet visited i 1) \<and> arraySet visited i 1 ! k = 0} = ?S - {nat i}"
    using i by (auto simp: arraySet_def nth_list_update)
  moreover have "nat i \<in> ?S" using i by simp
  moreover have "finite ?S" by simp
  ultimately show ?thesis
    unfolding zeros_def using card_Suc_Diff1 [of ?S "nat i"] by presburger
qed

lemma visitNeighbor_measure:
  assumes "visitNeighbor width height data n (stack, visited) = (stack', visited')"
  shows "2 * zeros visited' + length stack' \<le> 2 * zeros visited + length stack"
proof (cases "(stack', visited') = (stack, visited)")
  case True
  then show ?thesis by simp
next
  case False
  obtain nx ny where n: "n = (nx, ny)" by (cases n)
  from False assms have g: "arrayGet visited (ny * width + nx) = Some 0"
    and s: "stack' = (nx, ny) # stack" and v: "visited' = arraySet visited (ny * width + nx) 1"
    by (auto simp: visitNeighbor_def n Let_def split: if_splits)
  from zeros_arraySet [OF g] show ?thesis by (simp add: s v)
qed

lemma visitNeighbor_fold_measure:
  "fold (visitNeighbor width height data) ns (stack, visited) = (stack', visited') \<Longrightarrow>
   2 * zeros visited' + length stack' \<le> 2 * zeros visited + length stack"
proof (induction ns arbitrary: stack visited)
  case Nil
  then show ?case by simp
next
  case (Cons n ns)
  obtain s1 v1 where st: "visitNeighbor width height data n (stack, visited) = (s1, v1)"
    by (cases "visitNeighbor width height data n (stack, visited)")
  from Cons.prems have "fold (visitNeighbor width height data) ns (s1, v1) = (stack', visited')"
    by (simp add: st)
  from Cons.IH [OF this] visitNeighbor_measure [OF st] show ?case by simp
qed

lemma visitNeighbors_measure:
  "visitNeighbors width height data cx cy (stack, visited) = (stack', visited') \<Longrightarrow>
   2 * zeros visited' + length stack' \<le> 2 * zeros visited + length stack"
  unfolding visitNeighbors_def Let_def by (rule visitNeighbor_fold_measure)

text \<open>
  \<open>while (stack.length > 0)\<close>: pop a pixel, grow the bounding box, count it, and push
  its unvisited non-background neighbours. The result is \<open>(visited, box, count)\<close>.
\<close>

function floodFill ::
  "int \<Rightarrow> int \<Rightarrow> nat list \<Rightarrow> (int \<times> int) list \<Rightarrow> nat list \<Rightarrow> Rect \<Rightarrow> nat
     \<Rightarrow> nat list \<times> Rect \<times> nat" where
  "floodFill width height data [] visited box count = (visited, box, count)"
| "floodFill width height data ((cx, cy) # stack) visited box count =
     (case visitNeighbors width height data cx cy (stack, visited) of
        (stack', visited') \<Rightarrow>
          floodFill width height data stack' visited' (growBox cx cy box) (count + 1))"
  by pat_completeness auto
termination
proof (relation "measure (\<lambda>(width, height, data, stack, visited, box, count).
                    2 * zeros visited + length stack)")
  show "wf (measure (\<lambda>(width, height, data, stack, visited, box, count).
                    2 * zeros visited + length stack))" by simp
next
  fix width height :: int and data :: "nat list" and cx cy :: int and stack :: "(int \<times> int) list"
    and visited :: "nat list" and box :: Rect and count :: nat
    and stack' visited'
  assume "(stack', visited') = visitNeighbors width height data cx cy (stack, visited)"
  then have "visitNeighbors width height data cx cy (stack, visited) = (stack', visited')"
    by simp
  from visitNeighbors_measure [OF this]
  show "((width, height, data, stack', visited', growBox cx cy box, count + 1),
         (width, height, data, (cx, cy) # stack, visited, box, count))
        \<in> measure (\<lambda>(width, height, data, stack, visited, box, count).
                    2 * zeros visited + length stack)"
    by simp
qed

declare floodFill.simps [simp del]

text \<open>
  The body of the two scan loops at the pixel \<open>(x, y)\<close>; the state is \<open>(visited, rawRects)\<close>.
  The thresholds are those of the source: \<open>w = maxX - minX\<close>, \<open>h = maxY - minY\<close>,
  \<open>count > 50 && w > 5 && h > 5\<close>.
\<close>

definition scanPixel ::
  "int \<Rightarrow> int \<Rightarrow> nat list \<Rightarrow> int \<Rightarrow> int \<Rightarrow> nat list \<times> Rect list \<Rightarrow> nat list \<times> Rect list" where
  "scanPixel width height data y x s =
     (case s of (visited, rawRects) \<Rightarrow>
        let visitIdx = y * width + x in
        if truthy (arrayGet visited visitIdx) then s
        else
          let idx = getIdx width x y in
          if \<not> backgroundAt data idx then
            (case floodFill width height data [(x, y)] (arraySet visited visitIdx 1)
                    \<lparr>minX = x, maxX = x, minY = y, maxY = y\<rparr> 0 of
               (visited', box, count) \<Rightarrow>
                 let w = maxX box - minX box;
                     h = maxY box - minY box
                 in if count > 50 \<and> w > 5 \<and> h > 5
                    then (visited', rawRects @ [box])
                    else (visited', rawRects))
          else s)"

text \<open>The scan in row-major order, from an all-zero \<open>visited\<close> array.\<close>

definition detectComponents :: "int \<Rightarrow> int \<Rightarrow> nat list \<Rightarrow> Rect list" where
  "detectComponents width height data =
     snd (fold (\<lambda>y. fold (scanPixel width height data y) [0 .. width - 1]) [0 .. height - 1]
            (replicate (nat (width * height)) 0, []))"

section \<open>The Sticker Extractor (\<open>extractStickerFromRect\<close>)\<close>

text \<open>
  The source image or canvas: its size and its RGBA samples, row-major. Pixels outside the
  stored samples read as transparent black, as a canvas does.
\<close>

record Source =
  sourceWidth :: int
  sourceHeight :: int
  sourceData :: "nat list"

text \<open>Step 1 of the extractor: \<open>finalX\<close>, \<open>finalY\<close>, \<open>finalW\<close>, \<open>finalH\<close> with \<open>padding = 2\<close>.\<close>

definition cropRegion :: "int \<Rightarrow> int \<Rightarrow> Rect \<Rightarrow> int \<times> int \<times> int \<times> int" where
  "cropRegion width height rect =
     (let padding = 2;
          finalX = max 0 (minX rect - padding);
          finalY = max 0 (minY rect - padding);
          finalW = min (width - finalX) ((maxX rect - minX rect) + padding * 2);
          finalH = min (height - finalY) ((maxY rect - minY rect) + padding * 2)
      in (finalX, finalY, finalW, finalH))"

text \<open>
  \<open>drawImage\<close> of the crop region followed by \<open>getImageData\<close>: the samples of the region,
  row by row.
\<close>

definition sourcePixel :: "Source \<Rightarrow> int \<Rightarrow> int \<Rightarrow> nat list" where
  "sourcePixel source x y =
     (if 0 \<le> x \<and> x < sourceWidth source \<and> 0 \<le> y \<and> y < sourceHeight source
      then map (\<lambda>k. case arrayGet (sourceData source) (getIdx (sourceWidth source) x y + k) of
                       Some v \<Rightarrow> v | None \<Rightarrow> 0) [0, 1, 2, 3]
      else [0, 0, 0, 0])"

definition cropPixels :: "Source \<Rightarrow> int \<Rightarrow> int \<Rightarrow> int \<Rightarrow> int \<Rightarrow> nat list" where
  "cropPixels source finalX finalY finalW finalH =
     concat (map (\<lambda>y. concat (map (\<lambda>x. sourcePixel source (finalX + x) (finalY + y))
                                  [0 .. finalW - 1]))
                 [0 .. finalH - 1])"

text \<open>
  The two loops that push every edge pixel: \<open>stack.push([x, 0], [x, finalH - 1])\<close> for each
  column, then \<open>stack.push([0, y], [finalW - 1, y])\<close> for the rows in between.
\<close>

definition seedStack :: "int \<Rightarrow> int \<Rightarrow> (int \<times> int) list" where
  "seedStack finalW finalH =
     fold (\<lambda>y stack. (finalW - 1, y) # (0, y) # stack) [1 .. finalH - 2]
       (fold (\<lambda>x stack. (x, finalH - 1) # (x, 0) # stack) [0 .. finalW - 1] [])"

text \<open>The four guarded pushes of the 4-neighbours.\<close>

definition pushNeighbors :: "int \<Rightarrow> int \<Rightarrow> int \<Rightarrow> int \<Rightarrow> (int \<times> int) list \<Rightarrow> (int \<times> int) list" where
  "pushNeighbors finalW finalH cx cy stack =
     (let s1 = (if cx > 0 then (cx - 1, cy) # stack else stack);
          s2 = (if cx < finalW - 1 then (cx + 1, cy) # s1 else s1);
          s3 = (if cy > 0 then (cx, cy - 1) # s2 else s2);
          s4 = (if cy < finalH - 1 then (cx, cy + 1) # s3 else s3)
      in s4)"

text \<open>
  \<open>while (stack.length > 0)\<close> of the exterior flood fill. A pixel is marked when it is popped,
  so without knowing that the stack holds pixels of the crop only the loop need not end:
  it is a partial function, and \<open>None\<close> stands for a loop that does not return.
\<close>

partial_function (option) exteriorFill ::
  "int \<Rightarrow> int \<Rightarrow> nat list \<Rightarrow> (int \<times> int) list \<Rightarrow> nat list \<Rightarrow> nat list option" where
  "exteriorFill finalW finalH segPixels stack isExterior =
     (case stack of
        [] \<Rightarrow> Some isExterior
      | (cx, cy) # rest \<Rightarrow>
          let idx = (cy * finalW + cx) * 4;
              visitIdx = cy * finalW + cx
          in if \<not> truthy (arrayGet isExterior visitIdx) \<and> backgroundAt segPixels idx
             then exteriorFill finalW finalH segPixels (pushNeighbors finalW finalH cx cy rest)
                    (arraySet isExterior visitIdx 1)
             else exteriorFill finalW finalH segPixels rest isExterior)"

declare exteriorFill.simps [code]

text \<open>\<open>if (isExterior[i]) segPixels[i * 4 + 3] = 0\<close>.\<close>

definition clearAlpha :: "nat list \<Rightarrow> int \<Rightarrow> nat list \<Rightarrow> nat list" where
  "clearAlpha isExterior i segPixels =
     (if truthy (arrayGet isExterior i) then arraySet segPixels (i * 4 + 3) 0 else segPixels)"

text \<open>Lines 111 to 145: the fill from the border, then the loop that clears alpha.\<close>

definition removeExteriorBackground :: "int \<Rightarrow> int \<Rightarrow> nat list \<Rightarrow> nat list option" where
  "removeExteriorBackground finalW finalH segPixels =
     (case exteriorFill finalW finalH segPixels (seedStack finalW finalH)
             (replicate (nat (finalW * finalH)) 0) of
        None \<Rightarrow> None
      | Some isExterior \<Rightarrow>
          Some (fold (clearAlpha isExterior) [0 .. finalW * finalH - 1] segPixels))"

text \<open>The sticker result (\<open>StickerSegment\<close>).\<close>

record StickerSegment =
  segId :: string
  dataUrl :: string
  originalX :: int
  originalY :: int
  segWidth :: int
  segHeight :: int
  segName :: string
  isNaming :: bool

text \<open>
  What the extractor needs from the browser: whether each \<open>getContext('2d')\<close> succeeds, the
  rendering of steps 3 to 5 with \<open>toDataURL\<close> (a function of the cut-out), and the
  identifier that \<open>generateId\<close> returns.
\<close>

record CanvasEnv =
  segCtxOk :: bool
  sCtxOk :: bool
  fCtxOk :: bool
  renderSticker :: "int \<Rightarrow> int \<Rightarrow> nat list \<Rightarrow> string"
  generateId :: string

text \<open>
  \<open>extractStickerFromRect\<close>. The outer \<open>option\<close> is \<open>None\<close> when the flood fill does not
  return; the inner one is the \<open>StickerSegment | null\<close> of the source.
\<close>

definition extractStickerFromRect ::
  "CanvasEnv \<Rightarrow> Source \<Rightarrow> Rect \<Rightarrow> string option \<Rightarrow> StickerSegment option option" where
  "extractStickerFromRect env source rect defaultName =
     (let name = (case defaultName of None \<Rightarrow> ''sticker'' | Some n \<Rightarrow> n);
          strokeWidth = 6;
          width = sourceWidth source;
          height = sourceHeight source
      in case cropRegion width height rect of
           (finalX, finalY, finalW, finalH) \<Rightarrow>
             if finalW \<le> 0 \<or> finalH \<le> 0 then Some None
             else if \<not> segCtxOk env then Some None
             else
               (case removeExteriorBackground finalW finalH
                       (cropPixels source finalX finalY finalW finalH) of
                  None \<Rightarrow> None
                | Some segPixels \<Rightarrow>
                    if \<not> sCtxOk env then Some None
                    else if \<not> fCtxOk env then Some None
                    else Some (Some \<lparr>segId = generateId env,
                                     dataUrl = renderSticker env finalW finalH segPixels,
                                     originalX = finalX,
                                     originalY = finalY,
                                     segWidth = finalW + strokeWidth * 2,
                                     segHeight = finalH + strokeWidth * 2,
                                     segName = name,
                                     isNaming = False\<rparr>)))"

section \<open>The naming call (geminiService: \<open>generateStickerName\<close>)\<close>

text \<open>A value produced by \<open>JSON.parse\<close>.\<close>

datatype json =
  JNull | JBool bool | JNum int | JStr string | JArr "json list" | JObj "(string \<times> json) list"

text \<open>An exception thrown inside the naming call.\<close>

datatype jsError = NetworkError | SyntaxError | TypeError

text \<open>
  What the naming call reads from outside: the two stored credentials, the model call
  (it throws, or returns a response whose \<open>text\<close> may be absent) and \<open>JSON.parse\<close>
  (it throws, or returns a value).
\<close>

record NamingEnv =
  envApiKey :: "string option"
  storedApiKey :: "string option"
  generateContent :: "string \<Rightarrow> string option \<Rightarrow> jsError + string option"
  jsonParse :: "string \<Rightarrow> jsError + json"

text \<open>Truthiness of a string that may be \<open>undefined\<close> or \<open>null\<close>, and \<open>a || b\<close>.\<close>

definition truthyString :: "string option \<Rightarrow> bool" where
  "truthyString s = (case s of None \<Rightarrow> False | Some v \<Rightarrow> v \<noteq> [])"

definition jsOr :: "string option \<Rightarrow> string option \<Rightarrow> string option" where
  "jsOr a b = (if truthyString a then a else b)"

text \<open>\<open>getAiClient\<close>: the client is represented by its key, \<open>null\<close> by \<open>None\<close>.\<close>

definition getAiClient :: "NamingEnv \<Rightarrow> string option \<Rightarrow> string option" where
  "getAiClient env passedKey =
     (let apiKey = jsOr (jsOr passedKey (envApiKey env)) (storedApiKey env)
      in if \<not> truthyString apiKey then None else apiKey)"

text \<open>\<open>base64Image.split(',')[1]\<close>.\<close>

fun splitOn :: "char \<Rightarrow> string \<Rightarrow> string list" where
  "splitOn c [] = [[]]"
| "splitOn c (x # xs) =
     (if x = c then [] # splitOn c xs
      else (case splitOn c xs of [] \<Rightarrow> [[x]] | w # ws \<Rightarrow> (x # w) # ws))"

definition secondPart :: "string \<Rightarrow> string option" where
  "secondPart base64Image =
     (case splitOn (CHR '','') base64Image of a # b # rest \<Rightarrow> Some b | _ \<Rightarrow> None)"

text \<open>Truthiness of a JSON value that may be \<open>undefined\<close>.\<close>

definition truthyJson :: "json option \<Rightarrow> bool" where
  "truthyJson v =
     (case v of
        None \<Rightarrow> False
      | Some JNull \<Rightarrow> False
      | Some (JBool b) \<Rightarrow> b
      | Some (JNum n) \<Rightarrow> n \<noteq> 0
      | Some (JStr s) \<Rightarrow> s \<noteq> []
      | Some (JArr xs) \<Rightarrow> True
      | Some (JObj kvs) \<Rightarrow> True)"

text \<open>
  \<open>data.filename\<close>: a \<open>TypeError\<close> on \<open>null\<close>, \<open>undefined\<close> on every value that is not an
  object with that key.
\<close>

definition getFilename :: "json \<Rightarrow> jsError + json option" where
  "getFilename data =
     (case data of
        JNull \<Rightarrow> Inl TypeError
      | JObj kvs \<Rightarrow> Inr (map_of kvs ''filename'')
      | _ \<Rightarrow> Inr None)"

text \<open>The body of the \<open>try\<close> block.\<close>

definition namingBody :: "NamingEnv \<Rightarrow> string \<Rightarrow> string \<Rightarrow> jsError + json" where
  "namingBody env ai base64Image =
     (let cleanBase64 = secondPart base64Image in
      case generateContent env ai cleanBase64 of
        Inl e \<Rightarrow> Inl e
      | Inr text \<Rightarrow>
          (case text of
             None \<Rightarrow> Inr (JStr ''sticker'')
           | Some t \<Rightarrow>
               if t \<noteq> [] then
                 (case jsonParse env t of
                    Inl e \<Rightarrow> Inl e
                  | Inr data \<Rightarrow>
                      (case getFilename data of
                         Inl e \<Rightarrow> Inl e
                       | Inr filename \<Rightarrow>
                           (case filename of
                              None \<Rightarrow> Inr (JStr ''sticker'')
                            | Some v \<Rightarrow>
                                if truthyJson (Some v) then Inr v else Inr (JStr ''sticker''))))
               else Inr (JStr ''sticker'')))"

text \<open>The whole function: no client, or the \<open>try\<close> block with its \<open>catch\<close>.\<close>

definition generateStickerName :: "NamingEnv \<Rightarrow> string \<Rightarrow> string option \<Rightarrow> jsError + json" where
  "generateStickerName env base64Image userApiKey =
     (case getAiClient env userApiKey of
        None \<Rightarrow> Inr (JStr ''sticker'')
      | Some ai \<Rightarrow>
          (case namingBody env ai base64Image of
             Inl error \<Rightarrow> Inr (JStr ''sticker'')
           | Inr name \<Rightarrow> Inr name))"

section \<open>Exterior pixels of a crop\<close>

text \<open>
  A pixel of the crop is exterior when it is background and a 4-connected path of
  background pixels of the crop joins it to a background pixel of the border.
\<close>

definition inCrop :: "int \<Rightarrow> int \<Rightarrow> int \<times> int \<Rightarrow> bool" where
  "inCrop finalW finalH p = (case p of (x, y) \<Rightarrow> 0 \<le> x \<and> x < finalW \<and> 0 \<le> y \<and> y < finalH)"

definition onBorder :: "int \<Rightarrow> int \<Rightarrow> int \<times> int \<Rightarrow> bool" where
  "onBorder finalW finalH p =
     (case p of (x, y) \<Rightarrow> x = 0 \<or> x = finalW - 1 \<or> y = 0 \<or> y = finalH - 1)"

definition adjacent :: "int \<times> int \<Rightarrow> int \<times> int \<Rightarrow> bool" where
  "adjacent p q =
     (case p of (x, y) \<Rightarrow> case q of (x', y') \<Rightarrow>
        (y' = y \<and> (x' = x + 1 \<or> x' = x - 1)) \<or> (x' = x \<and> (y' = y + 1 \<or> y' = y - 1)))"

definition backgroundPixel :: "int \<Rightarrow> nat list \<Rightarrow> int \<times> int \<Rightarrow> bool" where
  "backgroundPixel finalW segPixels p =
     (case p of (x, y) \<Rightarrow> backgroundAt segPixels ((y * finalW + x) * 4))"

inductive exterior :: "int \<Rightarrow> int \<Rightarrow> nat list \<Rightarrow> int \<times> int \<Rightarrow> bool"
  for finalW finalH segPixels where
  border: "inCrop finalW finalH p \<Longrightarrow> onBorder finalW finalH p \<Longrightarrow>
           backgroundPixel finalW segPixels p \<Longrightarrow> exterior finalW finalH segPixels p"
| step: "exterior finalW finalH segPixels p \<Longrightarrow> adjacent p q \<Longrightarrow> inCrop finalW finalH q \<Longrightarrow>
         backgroundPixel finalW segPixels q \<Longrightarrow> exterior finalW finalH segPixels q"

text \<open>The pixels that the array \<open>isExterior\<close> marks, and the invariant of the fill.\<close>

definition marked :: "int \<Rightarrow> nat list \<Rightarrow> int \<times> int \<Rightarrow> bool" where
  "marked finalW isExterior p = (case p of (x, y) \<Rightarrow> truthy (arrayGet isExterior (y * finalW + x)))"

definition fillInv :: "int \<Rightarrow> int \<Rightarrow> nat list \<Rightarrow> (int \<times> int) list \<Rightarrow> nat list \<Rightarrow> bool" where
  "fillInv W H px stack ext \<longleftrightarrow>
     length ext = nat (W * H) \<and>
     (\<forall>q \<in> set stack. inCrop W H q) \<and>
     (\<forall>q \<in> set stack. backgroundPixel W px q \<longrightarrow> exterior W H px q) \<and>
     (\<forall>p. inCrop W H p \<and> marked W ext p \<longrightarrow> exterior W H px p) \<and>
     (\<forall>p. inCrop W H p \<and> onBorder W H p \<and> backgroundPixel W px p \<longrightarrow>
          marked W ext p \<or> p \<in> set stack) \<and>
     (\<forall>p q. inCrop W H p \<and> marked W ext p \<and> adjacent p q \<and> inCrop W H q \<and>
            backgroundPixel W px q \<longrightarrow> marked W ext q \<or> q \<in> set stack)"

section \<open>Connected components of non-background pixels\<close>

text \<open>
  A pixel of the image that is not background, and the pixels that a 4-connected path of
  such pixels joins to it: its connected component.
\<close>

definition foregroundPixel :: "int \<Rightarrow> int \<Rightarrow> nat list \<Rightarrow> int \<times> int \<Rightarrow> bool" where
  "foregroundPixel width height data p =
     (inCrop width height p \<and> (case p of (x, y) \<Rightarrow> \<not> backgroundAt data (getIdx width x y)))"

inductive connected :: "int \<Rightarrow> int \<Rightarrow> nat list \<Rightarrow> int \<times> int \<Rightarrow> int \<times> int \<Rightarrow> bool"
  for width height data p where
  start: "foregroundPixel width height data p \<Longrightarrow> connected width height data p p"
| step: "connected width height data p q \<Longrightarrow> adjacent q r \<Longrightarrow>
         foregroundPixel width height data r \<Longrightarrow> connected width height data p r"

definition component :: "int \<Rightarrow> int \<Rightarrow> nat list \<Rightarrow> int \<times> int \<Rightarrow> (int \<times> int) set" where
  "component width height data p = {q. connected width height data p q}"

text \<open>The bounding box of a set of pixels, with inclusive bounds.\<close>

definition boundingBox :: "(int \<times> int) set \<Rightarrow> Rect" where
  "boundingBox C = \<lparr>minX = Min (fst ` C), maxX = Max (fst ` C),
                    minY = Min (snd ` C), maxY = Max (snd ` C)\<rparr>"

text \<open>
  The thresholds of the detector, on a component: its number of pixels and the two
  differences \<open>maxX - minX\<close>, \<open>maxY - minY\<close> of its bounding box.
\<close>

definition passesThresholds :: "(int \<times> int) set \<Rightarrow> bool" where
  "passesThresholds C \<longleftrightarrow>
     card C > 50 \<and> maxX (boundingBox C) - minX (boundingBox C) > 5 \<and>
     maxY (boundingBox C) - minY (boundingBox C) > 5"

text \<open>The pixels of the image that the array \<open>visited\<close> marks.\<close>

definition markedSet :: "int \<Rightarrow> int \<Rightarrow> nat list \<Rightarrow> (int \<times> int) set" where
  "markedSet width height visited = {p. inCrop width height p \<and> marked width visited p}"

text \<open>
  Invariants of the detector's flood fill from the pixel \<open>p0\<close>: \<open>M0\<close> are the pixels marked
  before the fill, \<open>D\<close> the pixels popped so far.
\<close>

definition fillState ::
  "int \<Rightarrow> int \<Rightarrow> nat list \<Rightarrow> int \<times> int \<Rightarrow> (int \<times> int) set \<Rightarrow> (int \<times> int) set
     \<Rightarrow> (int \<times> int) list \<Rightarrow> nat list \<Rightarrow> bool" where
  "fillState W H data p0 M0 D stack visited \<longleftrightarrow>
     length visited = nat (W * H) \<and>
     distinct stack \<and> set stack \<inter> D = {} \<and> M0 \<inter> (D \<union> set stack) = {} \<and>
     markedSet W H visited = M0 \<union> D \<union> set stack \<and>
     D \<union> set stack \<subseteq> component W H data p0"

definition detInv ::
  "int \<Rightarrow> int \<Rightarrow> nat list \<Rightarrow> int \<times> int \<Rightarrow> (int \<times> int) set \<Rightarrow> (int \<times> int) set
     \<Rightarrow> (int \<times> int) list \<Rightarrow> nat list \<Rightarrow> bool" where
  "detInv W H data p0 M0 D stack visited \<longleftrightarrow>
     fillState W H data p0 M0 D stack visited \<and>
     (\<forall>d \<in> D. \<forall>r. adjacent d r \<and> foregroundPixel W H data r \<longrightarrow> r \<in> markedSet W H visited) \<and>
     p0 \<in> D \<union> set stack"

text \<open>
  The components that pass the thresholds among those of the pixels \<open>M\<close>, and the
  invariant of the scan: the marked pixels are whole components, and the rectangles found
  so far are the bounding boxes of those that pass, one for each.
\<close>

definition passingComponents :: "int \<Rightarrow> int \<Rightarrow> nat list \<Rightarrow> (int \<times> int) set \<Rightarrow> (int \<times> int) set set" where
  "passingComponents W H data M =
     {C. \<exists>p \<in> M. C = component W H data p \<and> passesThresholds C}"

definition scanInv :: "int \<Rightarrow> int \<Rightarrow> nat list \<Rightarrow> nat list \<times> Rect list \<Rightarrow> bool" where
  "scanInv W H data s \<longleftrightarrow>
     length (fst s) = nat (W * H) \<and>
     (\<forall>p \<in> markedSet W H (fst s).
        foregroundPixel W H data p \<and> component W H data p \<subseteq> markedSet W H (fst s)) \<and>
     set (snd s) = boundingBox ` passingComponents W H data (markedSet W H (fst s)) \<and>
     length (snd s) = card (passingComponents W H data (markedSet W H (fst s)))"

section \<open>Concrete inputs used below\<close>

text \<open>A 5 by 5 crop: a white margin, a ring of ink, and a white pixel enclosed by the ring.\<close>

definition whitePixel :: "nat list" where
  "whitePixel = [255, 255, 255, 255]"

definition inkPixel :: "nat list" where
  "inkPixel = [10, 20, 30, 255]"

definition ringImage :: "nat list" where
  "ringImage = concat
     [whitePixel, whitePixel, whitePixel, whitePixel, whitePixel,
      whitePixel, inkPixel,   inkPixel,   inkPixel,   whitePixel,
      whitePixel, inkPixel,   whitePixel, inkPixel,   whitePixel,
      whitePixel, inkPixel,   inkPixel,   inkPixel,   whitePixel,
      whitePixel, whitePixel, whitePixel, whitePixel, whitePixel]"

text \<open>\<open>n\<close> opaque black pixels.\<close>

definition inkBlock :: "nat \<Rightarrow> nat list" where
  "inkBlock n = concat (replicate n [0, 0, 0, 255])"

text \<open>A browser in which every drawing surface is available, and an 8 by 8 white source.\<close>

definition testEnv :: CanvasEnv where
  "testEnv = \<lparr>segCtxOk = True, sCtxOk = True, fCtxOk = True,
              renderSticker = (\<lambda>w h px. ''data:image/png;base64,''), generateId = ''id-1''\<rparr>"

definition testSource :: Source where
  "testSource = \<lparr>sourceWidth = 8, sourceHeight = 8, sourceData = replicate 256 255\<rparr>"

text \<open>A naming environment with a stored key, a fixed response and a fixed parse result.\<close>

definition keyedEnv :: "(jsError + string option) \<Rightarrow> (jsError + json) \<Rightarrow> NamingEnv" where
  "keyedEnv response parsed =
     \<lparr>envApiKey = None, storedApiKey = Some ''key'',
      generateContent = (\<lambda>apiKey image. response), jsonParse = (\<lambda>text. parsed)\<rparr>"

section \<open>Properties of the merger\<close>

lemma mergeLoop_changed:
  "mergePass merged t = (newMerged, True) \<Longrightarrow> mergeLoop merged t = mergeLoop newMerged t"
  by (subst mergeLoop.simps) simp

lemma mergeLoop_unchanged:
  "mergePass merged t = (newMerged, False) \<Longrightarrow> mergeLoop merged t = newMerged"
  by (subst mergeLoop.simps) simp

lemma mergeLoop_noClosePair: "noClosePair (mergeLoop merged t) t"
proof (induction merged t rule: mergeLoop.induct)
  case (1 merged t)
  obtain newMerged changed where p: "mergePass merged t = (newMerged, changed)"
    by (cases "mergePass merged t")
  show ?case
  proof (cases changed)
    case True
    with p "1.IH" [of newMerged changed] show ?thesis
      by (simp add: mergeLoop_changed)
  next
    case False
    with p mergePass_unchanged [of merged t newMerged] show ?thesis
      by (simp add: mergeLoop_unchanged)
  qed
qed

lemma mergeLoop_contains:
  "r \<in> set merged \<Longrightarrow> \<exists>r' \<in> set (mergeLoop merged t). rectContains r' r"
proof (induction merged t arbitrary: r rule: mergeLoop.induct)
  case (1 merged t)
  obtain newMerged changed where p: "mergePass merged t = (newMerged, changed)"
    by (cases "mergePass merged t")
  from mergePass_contains [OF p "1.prems"] obtain r1 where
    r1: "r1 \<in> set newMerged" "rectContains r1 r" by blast
  show ?case
  proof (cases changed)
    case True
    from "1.IH" [of newMerged changed r1] p True r1
    obtain r' where "r' \<in> set (mergeLoop newMerged t)" "rectContains r' r1" by auto
    with r1 p True show ?thesis
      by (auto simp: mergeLoop_changed intro: rectContains_trans)
  next
    case False
    with p r1 show ?thesis by (auto simp: mergeLoop_unchanged)
  qed
qed

lemma mergeLoop_valid:
  "\<forall>r \<in> set merged. validRect r \<Longrightarrow> \<forall>r \<in> set (mergeLoop merged t). validRect r"
proof (induction merged t rule: mergeLoop.induct)
  case (1 merged t)
  obtain newMerged changed where p: "mergePass merged t = (newMerged, changed)"
    by (cases "mergePass merged t")
  from mergePass_valid [OF p "1.prems"] have v: "\<forall>r \<in> set newMerged. validRect r" .
  show ?case
  proof (cases changed)
    case True
    with p "1.IH" [of newMerged changed] v show ?thesis
      by (simp add: mergeLoop_changed)
  next
    case False
    with p v show ?thesis by (simp add: mergeLoop_unchanged)
  qed
qed

lemma mergeLoop_length: "length (mergeLoop merged t) \<le> length merged"
proof (induction merged t rule: mergeLoop.induct)
  case (1 merged t)
  obtain newMerged changed where p: "mergePass merged t = (newMerged, changed)"
    by (cases "mergePass merged t")
  show ?case
  proof (cases changed)
    case True
    with p "1.IH" [of newMerged changed]
      mergePass_changed_length [of merged t newMerged] show ?thesis
      by (simp add: mergeLoop_changed)
  next
    case False
    with p mergePass_unchanged [of merged t newMerged] show ?thesis
      by (simp add: mergeLoop_unchanged)
  qed
qed

lemma xDist_sym: "xDist a b = xDist b a"
  by (simp add: xDist_def max.commute)

lemma yDist_sym: "yDist a b = yDist b a"
  by (simp add: yDist_def max.commute)

lemma noClosePair_any:
  assumes "noClosePair rs t" "i < length rs" "j < length rs" "i \<noteq> j"
  shows "t \<le> xDist (rs ! i) (rs ! j) \<or> t \<le> yDist (rs ! i) (rs ! j)"
proof (cases "i < j")
  case True
  with assms have "\<not> isClose (rs ! i) (rs ! j) t" by (auto simp: noClosePair_def)
  then show ?thesis by (auto simp: isClose_def)
next
  case False
  with assms have "j < i" by simp
  with assms have "\<not> isClose (rs ! j) (rs ! i) t" by (auto simp: noClosePair_def)
  then show ?thesis using xDist_sym [of "rs ! i" "rs ! j"] yDist_sym [of "rs ! i" "rs ! j"]
    by (auto simp: isClose_def)
qed

lemma mergePass_single: "mergePass [u] t = ([u], False)"
  by (simp add: mergePass_def mergeOuter_def)

lemma mergePass_pair:
  "mergePass [a, b] t =
     (if xDist a b < t \<and> yDist a b < t
      then ([\<lparr>minX = min (minX a) (minX b), maxX = max (maxX a) (maxX b),
              minY = min (minY a) (minY b), maxY = max (maxY a) (maxY b)\<rparr>], True)
      else ([a, b], False))"
  by (simp add: mergePass_def mergeOuter_def mergeInner_def upt_rec)

lemma mergeRects_pair:
  "mergeRects [a, b] t =
     (if xDist a b < t \<and> yDist a b < t
      then [\<lparr>minX = min (minX a) (minX b), maxX = max (maxX a) (maxX b),
              minY = min (minY a) (minY b), maxY = max (maxY a) (maxY b)\<rparr>]
      else [a, b])"
  by (simp add: mergeRects_def mergeLoop.simps [of "[a, b]"] mergeLoop.simps [of "[u]" for u]
      mergePass_pair mergePass_single)

section \<open>Properties of the detector\<close>

lemma fold_preserves:
  assumes "P s" and "\<And>x s. x \<in> set xs \<Longrightarrow> P s \<Longrightarrow> P (f x s)"
  shows "P (fold f xs s)"
  using assms by (induction xs arbitrary: s) simp_all

lemma growBox_valid: "validRect box \<Longrightarrow> validRect (growBox cx cy box)"
  by (auto simp: validRect_def growBox_def Let_def)

lemma floodFill_valid:
  "validRect box \<Longrightarrow> floodFill width height data stack visited box count = (visited', box', count')
     \<Longrightarrow> validRect box'"
proof (induction width height data stack visited box count rule: floodFill.induct)
  case (1 width height data visited box count)
  then show ?case by (simp add: floodFill.simps)
next
  case (2 width height data cx cy stack visited box count)
  obtain stack1 visited1 where
    f: "visitNeighbors width height data cx cy (stack, visited) = (stack1, visited1)"
    by (cases "visitNeighbors width height data cx cy (stack, visited)")
  have r: "floodFill width height data stack1 visited1 (growBox cx cy box) (count + 1)
             = (visited', box', count')"
    using "2.prems"(2) f by (simp add: floodFill.simps)
  show ?case
    by (rule "2.IH" [OF f [symmetric] growBox_valid [OF "2.prems"(1)] r])
qed

lemma scanPixel_cases:
  "scanPixel width height data y x (visited, rawRects) = (visited', rawRects') \<Longrightarrow>
   rawRects' = rawRects \<or>
   (\<exists>box count. rawRects' = rawRects @ [box] \<and> count > 50 \<and>
      maxX box - minX box > 5 \<and> maxY box - minY box > 5 \<and> validRect box \<and>
      floodFill width height data [(x, y)] (arraySet visited (y * width + x) 1)
        \<lparr>minX = x, maxX = x, minY = y, maxY = y\<rparr> 0 = (visited', box, count))"
  by (auto simp: scanPixel_def Let_def validRect_def split: if_splits prod.splits)

lemma scanPixel_preserves:
  assumes "\<forall>r \<in> set (snd s). P r"
    and "\<And>r. maxX r - minX r > 5 \<Longrightarrow> maxY r - minY r > 5 \<Longrightarrow> P r"
  shows "\<forall>r \<in> set (snd (scanPixel width height data y x s)). P r"
proof -
  obtain visited rawRects where s: "s = (visited, rawRects)" by (cases s)
  obtain visited' rawRects' where
    r: "scanPixel width height data y x (visited, rawRects) = (visited', rawRects')"
    by (cases "scanPixel width height data y x (visited, rawRects)")
  from scanPixel_cases [OF r] assms show ?thesis
    by (auto simp: s r)
qed

lemma detectComponents_all:
  assumes "\<And>r. maxX r - minX r > 5 \<Longrightarrow> maxY r - minY r > 5 \<Longrightarrow> P r"
  shows "\<forall>r \<in> set (detectComponents width height data). P r"
  unfolding detectComponents_def
  by (rule fold_preserves [where P = "\<lambda>s. \<forall>r \<in> set (snd s). P r"], simp)
     (rule fold_preserves, assumption, rule scanPixel_preserves [OF _ assms])

lemma inkBlock_first: "\<not> backgroundAt (inkBlock (Suc n)) (getIdx width 0 0)"
  by (simp add: inkBlock_def backgroundAt_def getIdx_def isBackground_def arrayGet_def
      jsLess_def jsGreater_def)

lemma scanPixel_visited:
  "truthy (arrayGet visited (y * width + x)) \<Longrightarrow>
   scanPixel width height data y x (visited, rawRects) = (visited, rawRects)"
  by (simp add: scanPixel_def)

lemma scan_row_visited:
  "\<forall>x \<in> set xs. truthy (arrayGet visited (y * width + x)) \<Longrightarrow>
   fold (scanPixel width height data y) xs (visited, rawRects) = (visited, rawRects)"
  by (induction xs) (simp_all add: scanPixel_visited)

lemma scan_rows_visited:
  "\<forall>y \<in> set ys. \<forall>x \<in> set xs. truthy (arrayGet visited (y * width + x)) \<Longrightarrow>
   fold (\<lambda>y. fold (scanPixel width height data y) xs) ys (visited, rawRects)
     = (visited, rawRects)"
  by (induction ys) (simp_all add: scan_row_visited)

lemma truthy_replicate:
  "0 \<le> i \<Longrightarrow> i < int n \<Longrightarrow> truthy (arrayGet (replicate n 1) i)"
  by (simp add: truthy_def arrayGet_def nat_less_iff)

section \<open>Properties of the exterior flood fill\<close>

lemma pixelIndex_mod: "0 \<le> x \<Longrightarrow> x < W \<Longrightarrow> (y * W + x) mod W = (x::int)"
  by simp

lemma pixelIndex_div: "0 \<le> x \<Longrightarrow> x < W \<Longrightarrow> (y * W + x) div W = (y::int)"
  by simp

lemma pixelIndex_inj:
  assumes "0 \<le> x" "x < W" "0 \<le> x'" "x' < W" "y * W + x = y' * W + (x'::int)"
  shows "x = x' \<and> y = y'"
proof -
  have "x = (y * W + x) mod W" using assms(1,2) by (simp only: pixelIndex_mod)
  also have "\<dots> = (y' * W + x') mod W" by (simp only: assms(5))
  also have "\<dots> = x'" using assms(3,4) by (simp only: pixelIndex_mod)
  finally have x: "x = x'" .
  have "y = (y * W + x) div W" using assms(1,2) by (simp only: pixelIndex_div)
  also have "\<dots> = (y' * W + x') div W" by (simp only: assms(5))
  also have "\<dots> = y'" using assms(3,4) by (simp only: pixelIndex_div)
  finally have "y = y'" .
  with x show ?thesis by simp
qed

lemma pixelIndex_range:
  assumes "inCrop W H (x, y)"
  shows "0 \<le> y * W + x \<and> y * W + x < W * H"
proof -
  from assms have a: "0 \<le> x" "x < W" "0 \<le> y" "y < H" by (simp_all add: inCrop_def)
  then have "0 \<le> y * W" by simp
  with a have lo: "0 \<le> y * W + x" by simp
  from a have "y + 1 \<le> H" by simp
  then have "(y + 1) * W \<le> H * W" using a by (intro mult_right_mono) simp_all
  moreover have "y * W + x < (y + 1) * W" using a by (simp add: algebra_simps)
  ultimately have "y * W + x < W * H" by (simp add: mult.commute)
  with lo show ?thesis by simp
qed

lemma arrayGet_arraySet:
  "arrayGet (arraySet a i v) j =
     (if i = j \<and> 0 \<le> i \<and> i < int (length a) then Some v else arrayGet a j)"
  by (auto simp: arrayGet_def arraySet_def nth_list_update)

lemma length_arraySet [simp]: "length (arraySet a i v) = length a"
  by (simp add: arraySet_def)

lemma marked_arraySet:
  assumes len: "length ext = nat (W * H)" and p: "inCrop W H (cx, cy)" and q: "inCrop W H q"
    and v: "v \<noteq> 0"
  shows "marked W (arraySet ext (cy * W + cx) v) q \<longleftrightarrow> q = (cx, cy) \<or> marked W ext q"
proof -
  obtain x y where qq: "q = (x, y)" by (cases q)
  from pixelIndex_range [OF p] len have r: "0 \<le> cy * W + cx" "cy * W + cx < int (length ext)"
    by simp_all
  have "(cy * W + cx = y * W + x) = (cx = x \<and> cy = y)"
    using pixelIndex_inj [of cx W x cy y] p q by (auto simp: inCrop_def qq)
  then show ?thesis
    using r v by (auto simp: marked_def qq arrayGet_arraySet truthy_def)
qed

lemma set_pushNeighbors:
  "set (pushNeighbors W H cx cy rest) =
     set rest \<union> {q. adjacent (cx, cy) q \<and> (fst q = cx - 1 \<longrightarrow> cx > 0) \<and>
                    (fst q = cx + 1 \<longrightarrow> cx < W - 1) \<and> (snd q = cy - 1 \<longrightarrow> cy > 0) \<and>
                    (snd q = cy + 1 \<longrightarrow> cy < H - 1)}"
  by (auto simp: pushNeighbors_def adjacent_def Let_def)

lemma pushNeighbors_inCrop:
  assumes "inCrop W H (cx, cy)"
  shows "set (pushNeighbors W H cx cy rest) = set rest \<union> {q. adjacent (cx, cy) q \<and> inCrop W H q}"
  using assms unfolding set_pushNeighbors by (auto simp: adjacent_def inCrop_def)

lemma length_pushNeighbors: "length (pushNeighbors W H cx cy rest) \<le> length rest + 4"
  by (simp add: pushNeighbors_def Let_def)

lemma fillInv_skip:
  assumes inv: "fillInv W H px ((cx, cy) # rest) ext"
    and c: "\<not> (\<not> truthy (arrayGet ext (cy * W + cx)) \<and> backgroundAt px ((cy * W + cx) * 4))"
  shows "fillInv W H px rest ext"
proof -
  from c have c': "backgroundPixel W px (cx, cy) \<longrightarrow> marked W ext (cx, cy)"
    by (auto simp: backgroundPixel_def marked_def)
  note i = inv [unfolded fillInv_def]
  have e: "\<forall>p. inCrop W H p \<and> onBorder W H p \<and> backgroundPixel W px p \<longrightarrow>
          marked W ext p \<or> p \<in> set rest"
  proof (intro allI impI)
    fix p assume p: "inCrop W H p \<and> onBorder W H p \<and> backgroundPixel W px p"
    with i have "marked W ext p \<or> p \<in> set ((cx, cy) # rest)" by blast
    with c' p show "marked W ext p \<or> p \<in> set rest" by auto
  qed
  have f: "\<forall>p q. inCrop W H p \<and> marked W ext p \<and> adjacent p q \<and> inCrop W H q \<and>
            backgroundPixel W px q \<longrightarrow> marked W ext q \<or> q \<in> set rest"
  proof (intro allI impI)
    fix p q assume pq: "inCrop W H p \<and> marked W ext p \<and> adjacent p q \<and> inCrop W H q \<and>
            backgroundPixel W px q"
    with i have "marked W ext q \<or> q \<in> set ((cx, cy) # rest)" by blast
    with c' pq show "marked W ext q \<or> q \<in> set rest" by auto
  qed
  from i e f show ?thesis unfolding fillInv_def by simp
qed

lemma fillInv_mark:
  assumes inv: "fillInv W H px ((cx, cy) # rest) ext"
    and bg: "backgroundAt px ((cy * W + cx) * 4)"
  shows "fillInv W H px (pushNeighbors W H cx cy rest) (arraySet ext (cy * W + cx) 1)"
proof -
  note i = inv [unfolded fillInv_def]
  from i have len: "length ext = nat (W * H)" and p0: "inCrop W H (cx, cy)" by simp_all
  from bg have bg0: "backgroundPixel W px (cx, cy)" by (simp add: backgroundPixel_def)
  with i have ex0: "exterior W H px (cx, cy)" by simp
  note st = pushNeighbors_inCrop [OF p0, of rest]
  have mk: "\<And>q. inCrop W H q \<Longrightarrow>
      marked W (arraySet ext (cy * W + cx) 1) q \<longleftrightarrow> q = (cx, cy) \<or> marked W ext q"
    by (rule marked_arraySet [OF len p0]) simp_all
  have b: "\<forall>q \<in> set (pushNeighbors W H cx cy rest). inCrop W H q"
    using i by (auto simp: st)
  have c: "\<forall>q \<in> set (pushNeighbors W H cx cy rest).
             backgroundPixel W px q \<longrightarrow> exterior W H px q"
    using i ex0 by (auto simp: st intro: exterior.step)
  have d: "\<forall>p. inCrop W H p \<and> marked W (arraySet ext (cy * W + cx) 1) p \<longrightarrow> exterior W H px p"
  proof (intro allI impI)
    fix p assume p: "inCrop W H p \<and> marked W (arraySet ext (cy * W + cx) 1) p"
    with mk [of p] have "p = (cx, cy) \<or> marked W ext p" by blast
    with p i ex0 show "exterior W H px p" by blast
  qed
  have e: "\<forall>p. inCrop W H p \<and> onBorder W H p \<and> backgroundPixel W px p \<longrightarrow>
          marked W (arraySet ext (cy * W + cx) 1) p \<or> p \<in> set (pushNeighbors W H cx cy rest)"
  proof (intro allI impI)
    fix p assume p: "inCrop W H p \<and> onBorder W H p \<and> backgroundPixel W px p"
    with i have "marked W ext p \<or> p \<in> set ((cx, cy) # rest)" by blast
    with p mk [of p] show "marked W (arraySet ext (cy * W + cx) 1) p \<or> p \<in> set (pushNeighbors W H cx cy rest)"
      unfolding st by auto
  qed
  have f: "\<forall>p q. inCrop W H p \<and> marked W (arraySet ext (cy * W + cx) 1) p \<and> adjacent p q \<and>
            inCrop W H q \<and> backgroundPixel W px q \<longrightarrow>
            marked W (arraySet ext (cy * W + cx) 1) q \<or> q \<in> set (pushNeighbors W H cx cy rest)"
  proof (intro allI impI)
    fix p q assume pq: "inCrop W H p \<and> marked W (arraySet ext (cy * W + cx) 1) p \<and> adjacent p q \<and>
            inCrop W H q \<and> backgroundPixel W px q"
    with mk [of p] have "p = (cx, cy) \<or> marked W ext p" by blast
    then show "marked W (arraySet ext (cy * W + cx) 1) q \<or> q \<in> set (pushNeighbors W H cx cy rest)"
    proof
      assume "p = (cx, cy)"
      with pq show ?thesis unfolding st by simp
    next
      assume "marked W ext p"
      with pq i have "marked W ext q \<or> q \<in> set ((cx, cy) # rest)" by blast
      with pq mk [of q] show ?thesis unfolding st by auto
    qed
  qed
  from len b c d e f show ?thesis unfolding fillInv_def by simp
qed

lemma zeros_mark:
  assumes inv: "fillInv W H px ((cx, cy) # rest) ext"
    and nm: "\<not> truthy (arrayGet ext (cy * W + cx))"
  shows "Suc (zeros (arraySet ext (cy * W + cx) 1)) = zeros ext"
proof -
  note i = inv [unfolded fillInv_def]
  from i have len: "length ext = nat (W * H)" and p0: "inCrop W H (cx, cy)" by simp_all
  from pixelIndex_range [OF p0] len nm have "arrayGet ext (cy * W + cx) = Some 0"
    by (auto simp: arrayGet_def truthy_def)
  then show ?thesis by (rule zeros_arraySet)
qed

lemma exteriorFill_returns:
  assumes "fillInv W H px stack ext"
  shows "\<exists>ext'. exteriorFill W H px stack ext = Some ext' \<and> fillInv W H px [] ext'"
  using assms
proof (induction "5 * zeros ext + length stack" arbitrary: stack ext rule: less_induct)
  case less
  show ?case
  proof (cases stack)
    case Nil
    with less.prems show ?thesis by (simp add: exteriorFill.simps)
  next
    case (Cons p rest)
    obtain cx cy where p: "p = (cx, cy)" by (cases p)
    note inv = less.prems [unfolded Cons p]
    show ?thesis
    proof (cases "\<not> truthy (arrayGet ext (cy * W + cx)) \<and> backgroundAt px ((cy * W + cx) * 4)")
      case True
      let ?stack' = "pushNeighbors W H cx cy rest" and ?ext' = "arraySet ext (cy * W + cx) 1"
      from True have eq: "exteriorFill W H px stack ext = exteriorFill W H px ?stack' ?ext'"
        by (subst exteriorFill.simps) (simp add: Cons p)
      from True have inv': "fillInv W H px ?stack' ?ext'" using fillInv_mark [OF inv] by blast
      from True have "Suc (zeros ?ext') = zeros ext" using zeros_mark [OF inv] by blast
      with length_pushNeighbors [of W H cx cy rest]
      have "5 * zeros ?ext' + length ?stack' < 5 * zeros ext + length stack"
        by (simp add: Cons)
      from less.hyps [OF this inv'] show ?thesis by (simp add: eq)
    next
      case False
      then have eq: "exteriorFill W H px stack ext = exteriorFill W H px rest ext"
        by (subst exteriorFill.simps) (auto simp: Cons p)
      from inv False have inv': "fillInv W H px rest ext" by (rule fillInv_skip)
      have "5 * zeros ext + length rest < 5 * zeros ext + length stack" by (simp add: Cons)
      from less.hyps [OF this inv'] show ?thesis by (simp add: eq)
    qed
  qed
qed

lemma fillInv_final:
  assumes inv: "fillInv W H px [] ext" and p: "inCrop W H p"
  shows "marked W ext p \<longleftrightarrow> exterior W H px p"
proof
  assume "marked W ext p"
  with inv p show "exterior W H px p" unfolding fillInv_def by blast
next
  have e: "\<And>p. inCrop W H p \<Longrightarrow> onBorder W H p \<Longrightarrow> backgroundPixel W px p \<Longrightarrow> marked W ext p"
    using inv unfolding fillInv_def by fastforce
  have f: "\<And>p q. inCrop W H p \<Longrightarrow> marked W ext p \<Longrightarrow> adjacent p q \<Longrightarrow> inCrop W H q \<Longrightarrow>
            backgroundPixel W px q \<Longrightarrow> marked W ext q"
    using inv unfolding fillInv_def by fastforce
  assume "exterior W H px p"
  then show "marked W ext p"
  proof (induction rule: exterior.induct)
    case (border p)
    then show ?case by (rule e)
  next
    case (step p q)
    have "inCrop W H p" using step.hyps(1) by (cases rule: exterior.cases) simp_all
    with step show ?case using f by blast
  qed
qed

lemma set_fold_push2:
  "set (fold (\<lambda>x stack. f x # g x # stack) xs st) = set st \<union> f ` set xs \<union> g ` set xs"
  by (induction xs arbitrary: st) auto

lemma set_seedStack:
  "set (seedStack W H) =
     (\<lambda>x. (x, H - 1)) ` {0 .. W - 1} \<union> (\<lambda>x. (x, 0)) ` {0 .. W - 1} \<union>
     (\<lambda>y. (W - 1, y)) ` {1 .. H - 2} \<union> (\<lambda>y. (0, y)) ` {1 .. H - 2}"
  by (simp add: seedStack_def set_fold_push2 Un_ac)

lemma in_seedStack:
  "(x, y) \<in> set (seedStack W H) \<longleftrightarrow>
     (0 \<le> x \<and> x \<le> W - 1 \<and> (y = H - 1 \<or> y = 0)) \<or>
     (1 \<le> y \<and> y \<le> H - 2 \<and> (x = W - 1 \<or> x = 0))"
  unfolding set_seedStack by auto

lemma seedStack_border:
  assumes "0 < W" "0 < H"
  shows "set (seedStack W H) = {p. inCrop W H p \<and> onBorder W H p}"
proof (rule set_eqI)
  fix p :: "int \<times> int"
  obtain x y where p: "p = (x, y)" by (cases p)
  show "p \<in> set (seedStack W H) \<longleftrightarrow> p \<in> {p. inCrop W H p \<and> onBorder W H p}"
    using assms unfolding p in_seedStack by (simp add: inCrop_def onBorder_def) arith
qed

lemma not_marked_replicate: "\<not> marked W (replicate n 0) p"
  by (cases p) (auto simp: marked_def arrayGet_def truthy_def nat_less_iff)

lemma fillInv_init:
  assumes "0 < W" "0 < H"
  shows "fillInv W H px (seedStack W H) (replicate (nat (W * H)) 0)"
  unfolding fillInv_def seedStack_border [OF assms]
  by (auto simp: not_marked_replicate intro: exterior.border)

lemma length_fold_clearAlpha [simp]:
  "length (fold (clearAlpha ext) is px) = length px"
  by (induction "is" arbitrary: px) (simp_all add: clearAlpha_def)

lemma nth_fold_clearAlpha:
  "j < length px \<Longrightarrow>
   fold (clearAlpha ext) is px ! j =
     (if \<exists>i \<in> set is. truthy (arrayGet ext i) \<and> i * 4 + 3 = int j then 0 else px ! j)"
proof (induction "is" arbitrary: px)
  case Nil
  then show ?case by simp
next
  case (Cons i "is")
  have len: "j < length (clearAlpha ext i px)" using Cons.prems by (simp add: clearAlpha_def)
  have one: "clearAlpha ext i px ! j =
               (if truthy (arrayGet ext i) \<and> i * 4 + 3 = int j then 0 else px ! j)"
    using Cons.prems by (auto simp: clearAlpha_def arraySet_def nth_list_update)
  show ?case
    using Cons.IH [OF len] one by auto
qed

lemma removeExteriorBackground_spec:
  assumes W: "0 < finalW" and H: "0 < finalH"
    and len: "length segPixels = nat (finalW * finalH * 4)"
  shows "\<exists>out. removeExteriorBackground finalW finalH segPixels = Some out \<and>
           length out = length segPixels \<and>
           (\<forall>x y. 0 \<le> x \<and> x < finalW \<and> 0 \<le> y \<and> y < finalH \<longrightarrow>
              out ! nat ((y * finalW + x) * 4) = segPixels ! nat ((y * finalW + x) * 4) \<and>
              out ! nat ((y * finalW + x) * 4 + 1) = segPixels ! nat ((y * finalW + x) * 4 + 1) \<and>
              out ! nat ((y * finalW + x) * 4 + 2) = segPixels ! nat ((y * finalW + x) * 4 + 2) \<and>
              out ! nat ((y * finalW + x) * 4 + 3) =
                (if exterior finalW finalH segPixels (x, y) then 0
                 else segPixels ! nat ((y * finalW + x) * 4 + 3)))"
proof -
  from exteriorFill_returns [OF fillInv_init [OF W H], of segPixels]
  obtain ext where fill: "exteriorFill finalW finalH segPixels (seedStack finalW finalH)
                            (replicate (nat (finalW * finalH)) 0) = Some ext"
    and inv: "fillInv finalW finalH segPixels [] ext" by blast
  let ?out = "fold (clearAlpha ext) [0 .. finalW * finalH - 1] segPixels"
  have res: "removeExteriorBackground finalW finalH segPixels = Some ?out"
    by (simp add: removeExteriorBackground_def fill)
  have main: "?out ! nat ((y * finalW + x) * 4 + k) =
                (if k = 3 \<and> exterior finalW finalH segPixels (x, y) then 0
                 else segPixels ! nat ((y * finalW + x) * 4 + k))"
    if xy: "0 \<le> x \<and> x < finalW \<and> 0 \<le> y \<and> y < finalH" and k: "0 \<le> k" "k < 4" for x y k
  proof -
    from xy have c: "inCrop finalW finalH (x, y)" by (simp add: inCrop_def)
    note r = pixelIndex_range [OF c]
    let ?i = "y * finalW + x"
    from r k len have j: "nat (?i * 4 + k) < length segPixels" by simp
    have ex: "(\<exists>i \<in> set [0 .. finalW * finalH - 1].
                 truthy (arrayGet ext i) \<and> i * 4 + 3 = int (nat (?i * 4 + k)))
              \<longleftrightarrow> k = 3 \<and> exterior finalW finalH segPixels (x, y)"
    proof
      assume "\<exists>i \<in> set [0 .. finalW * finalH - 1].
                 truthy (arrayGet ext i) \<and> i * 4 + 3 = int (nat (?i * 4 + k))"
      then obtain i where i: "truthy (arrayGet ext i)" "i * 4 + 3 = ?i * 4 + k"
        using r k by auto
      from i(2) k have "k = 3 \<and> i = ?i" by presburger
      with i(1) fillInv_final [OF inv c] show "k = 3 \<and> exterior finalW finalH segPixels (x, y)"
        by (simp add: marked_def)
    next
      assume a: "k = 3 \<and> exterior finalW finalH segPixels (x, y)"
      with fillInv_final [OF inv c] have "truthy (arrayGet ext ?i)" by (simp add: marked_def)
      moreover have "?i \<in> set [0 .. finalW * finalH - 1]" using r by simp
      moreover have "?i * 4 + 3 = int (nat (?i * 4 + k))" using a r by simp
      ultimately show "\<exists>i \<in> set [0 .. finalW * finalH - 1].
                 truthy (arrayGet ext i) \<and> i * 4 + 3 = int (nat (?i * 4 + k))" by blast
    qed
    show ?thesis
      unfolding nth_fold_clearAlpha [OF j] ex by simp
  qed
  have "\<forall>x y. 0 \<le> x \<and> x < finalW \<and> 0 \<le> y \<and> y < finalH \<longrightarrow>
              ?out ! nat ((y * finalW + x) * 4) = segPixels ! nat ((y * finalW + x) * 4) \<and>
              ?out ! nat ((y * finalW + x) * 4 + 1) = segPixels ! nat ((y * finalW + x) * 4 + 1) \<and>
              ?out ! nat ((y * finalW + x) * 4 + 2) = segPixels ! nat ((y * finalW + x) * 4 + 2) \<and>
              ?out ! nat ((y * finalW + x) * 4 + 3) =
                (if exterior finalW finalH segPixels (x, y) then 0
                 else segPixels ! nat ((y * finalW + x) * 4 + 3))"
  proof (intro allI impI)
    fix x y assume xy: "0 \<le> x \<and> x < finalW \<and> 0 \<le> y \<and> y < finalH"
    from main [OF xy, of 0] main [OF xy, of 1] main [OF xy, of 2] main [OF xy, of 3]
    show "?out ! nat ((y * finalW + x) * 4) = segPixels ! nat ((y * finalW + x) * 4) \<and>
              ?out ! nat ((y * finalW + x) * 4 + 1) = segPixels ! nat ((y * finalW + x) * 4 + 1) \<and>
              ?out ! nat ((y * finalW + x) * 4 + 2) = segPixels ! nat ((y * finalW + x) * 4 + 2) \<and>
              ?out ! nat ((y * finalW + x) * 4 + 3) =
                (if exterior finalW finalH segPixels (x, y) then 0
                 else segPixels ! nat ((y * finalW + x) * 4 + 3))"
      by simp
  qed
  with res show ?thesis by simp
qed

lemma exterior_background:
  "exterior W H px p \<Longrightarrow> backgroundPixel W px p"
  by (cases rule: exterior.cases) simp_all

lemma ringImage_corner: "exterior 5 5 ringImage (0, 0)"
  by (rule exterior.border)
    (simp_all add: inCrop_def onBorder_def backgroundPixel_def backgroundAt_def isBackground_def
      arrayGet_def jsLess_def jsGreater_def ringImage_def whitePixel_def inkPixel_def)

lemma ringImage_ink:
  "\<not> backgroundPixel 5 ringImage (1, 2)" "\<not> backgroundPixel 5 ringImage (3, 2)"
  "\<not> backgroundPixel 5 ringImage (2, 1)" "\<not> backgroundPixel 5 ringImage (2, 3)"
  by (simp_all add: backgroundPixel_def backgroundAt_def isBackground_def
      arrayGet_def jsLess_def jsGreater_def ringImage_def whitePixel_def inkPixel_def)

lemma ringImage_centre: "\<not> exterior 5 5 ringImage (2, 2)"
proof
  assume "exterior 5 5 ringImage (2, 2)"
  then show False
  proof (cases rule: exterior.cases)
    case border
    then show False by (simp add: onBorder_def)
  next
    case (step p)
    from step(2) have "p = (1, 2) \<or> p = (3, 2) \<or> p = (2, 1) \<or> p = (2, 3)"
      by (cases p) (auto simp: adjacent_def)
    with exterior_background [OF step(1)] ringImage_ink show False by auto
  qed
qed

lemma length_sourcePixel [simp]: "length (sourcePixel source x y) = 4"
  by (simp add: sourcePixel_def)

lemma length_concat_const:
  "(\<And>x. x \<in> set xs \<Longrightarrow> length (f x) = n) \<Longrightarrow> length (concat (map f xs)) = n * length xs"
  by (induction xs) simp_all

lemma length_cropPixels:
  assumes "0 < finalW" "0 < finalH"
  shows "length (cropPixels source finalX finalY finalW finalH) = nat (finalW * finalH * 4)"
proof -
  have row: "length (concat (map (\<lambda>x. sourcePixel source (finalX + x) (finalY + y))
                                  [0 .. finalW - 1])) = 4 * nat finalW" for y
    by (subst length_concat_const [where n = 4]) simp_all
  have "length (cropPixels source finalX finalY finalW finalH) = (4 * nat finalW) * nat finalH"
    unfolding cropPixels_def
    by (subst length_concat_const [where n = "4 * nat finalW"]) (simp_all add: row)
  also have "\<dots> = nat (finalW * finalH * 4)"
    using assms by (simp add: nat_mult_distrib mult.commute)
  finally show ?thesis .
qed

section \<open>The detector finds the connected components\<close>

lemma connected_left: "connected W H data p q \<Longrightarrow> foregroundPixel W H data p"
  by (induction rule: connected.induct) simp_all

lemma connected_right: "connected W H data p q \<Longrightarrow> foregroundPixel W H data q"
  by (induction rule: connected.induct) simp_all

lemma connected_trans:
  "connected W H data q r \<Longrightarrow> connected W H data p q \<Longrightarrow> connected W H data p r"
  by (induction rule: connected.induct) (auto intro: connected.step)

lemma adjacent_sym: "adjacent p q \<Longrightarrow> adjacent q p"
  by (cases p, cases q) (auto simp: adjacent_def)

lemma connected_sym: "connected W H data p q \<Longrightarrow> connected W H data q p"
proof (induction rule: connected.induct)
  case start
  then show ?case by (rule connected.start)
next
  case (step q r)
  have "connected W H data r r" using step.hyps(3) by (rule connected.start)
  then have "connected W H data r q"
    using adjacent_sym [OF step.hyps(2)] connected_right [OF step.hyps(1)]
    by (rule connected.step)
  with step.IH show ?case by (rule connected_trans)
qed

lemma component_eq:
  assumes "q \<in> component W H data p"
  shows "component W H data q = component W H data p"
  using assms unfolding component_def
  by (auto intro: connected_trans connected_sym)

lemma component_self: "foregroundPixel W H data p \<Longrightarrow> p \<in> component W H data p"
  by (simp add: component_def connected.start)

lemma component_foreground: "q \<in> component W H data p \<Longrightarrow> foregroundPixel W H data q"
  by (simp add: component_def connected_right)

lemma finite_inCrop: "finite {p. inCrop W H p}"
proof -
  have "{p. inCrop W H p} \<subseteq> {0 ..< W} \<times> {0 ..< H}" by (auto simp: inCrop_def)
  then show ?thesis by (rule finite_subset) simp
qed

lemma finite_component: "finite (component W H data p)"
proof -
  have "component W H data p \<subseteq> {p. inCrop W H p}"
  proof
    fix q assume "q \<in> component W H data p"
    then have "foregroundPixel W H data q" by (rule component_foreground)
    then show "q \<in> {p. inCrop W H p}" by (simp add: foregroundPixel_def)
  qed
  then show ?thesis using finite_inCrop by (rule finite_subset)
qed

lemma growBox_eq:
  "growBox cx cy box = \<lparr>minX = min cx (minX box), maxX = max cx (maxX box),
                         minY = min cy (minY box), maxY = max cy (maxY box)\<rparr>"
  by (cases box) (auto simp: growBox_def Let_def min_def max_def)

lemma boundingBox_single:
  "boundingBox {(x, y)} = \<lparr>minX = x, maxX = x, minY = y, maxY = y\<rparr>"
  by (simp add: boundingBox_def)

lemma boundingBox_insert:
  assumes "finite C" "C \<noteq> {}"
  shows "boundingBox (insert (x, y) C) = growBox x y (boundingBox C)"
  using assms by (simp add: boundingBox_def growBox_eq)

lemma markedSet_arraySet:
  assumes "length visited = nat (W * H)" and "inCrop W H (x, y)"
  shows "markedSet W H (arraySet visited (y * W + x) 1) = insert (x, y) (markedSet W H visited)"
proof -
  have "marked W (arraySet visited (y * W + x) 1) q \<longleftrightarrow> q = (x, y) \<or> marked W visited q"
    if "inCrop W H q" for q
    by (rule marked_arraySet [OF assms that]) simp
  with assms(2) show ?thesis by (auto simp: markedSet_def)
qed

lemma unmarked_iff:
  assumes "length visited = nat (W * H)" and "inCrop W H (x, y)"
  shows "arrayGet visited (y * W + x) = Some 0 \<longleftrightarrow> (x, y) \<notin> markedSet W H visited"
  using pixelIndex_range [OF assms(2)] assms
  by (auto simp: markedSet_def marked_def arrayGet_def truthy_def)

lemma visitNeighbor_fillState:
  assumes K: "fillState W H data p0 M0 D stack visited"
    and q: "q \<in> D" and adj: "adjacent q n"
    and res: "visitNeighbor W H data n (stack, visited) = (stack', visited')"
  shows "fillState W H data p0 M0 D stack' visited' \<and>
         (foregroundPixel W H data n \<longrightarrow> n \<in> markedSet W H visited') \<and>
         markedSet W H visited \<subseteq> markedSet W H visited'"
proof -
  obtain nx ny where n: "n = (nx, ny)" by (cases n)
  note k = K [unfolded fillState_def]
  from k have len: "length visited = nat (W * H)" by simp
  show ?thesis
  proof (cases "foregroundPixel W H data n \<and> n \<notin> markedSet W H visited")
    case True
    then have c: "inCrop W H (nx, ny)" and fg: "\<not> backgroundAt data (getIdx W nx ny)"
      by (simp_all add: foregroundPixel_def n)
    from True have um: "arrayGet visited (ny * W + nx) = Some 0"
      using unmarked_iff [OF len c] by (simp add: n)
    from c fg um res have s: "stack' = n # stack"
      and v: "visited' = arraySet visited (ny * W + nx) 1"
      by (auto simp: visitNeighbor_def n inCrop_def Let_def)
    have ms: "markedSet W H visited' = insert n (markedSet W H visited)"
      unfolding v n by (rule markedSet_arraySet [OF len c])
    from q k have "connected W H data p0 q" by (auto simp: component_def)
    then have "connected W H data p0 n" using adj True by (auto intro: connected.step)
    then have nc: "n \<in> component W H data p0" by (simp add: component_def)
    from True k have nn: "n \<notin> M0" "n \<notin> D" "n \<notin> set stack" by auto
    have "fillState W H data p0 M0 D stack' visited'"
      unfolding fillState_def using k nn nc ms by (auto simp: s v)
    with ms show ?thesis by auto
  next
    case False
    have same: "stack' = stack \<and> visited' = visited"
    proof (cases "inCrop W H (nx, ny)")
      case c: True
      show ?thesis
      proof (cases "arrayGet visited (ny * W + nx) = Some 0")
        case True
        with unmarked_iff [OF len c] False have "backgroundAt data (getIdx W nx ny)"
          using c by (simp add: foregroundPixel_def n)
        with res show ?thesis by (auto simp: visitNeighbor_def n Let_def split: if_splits)
      next
        case False
        with res show ?thesis by (auto simp: visitNeighbor_def n Let_def split: if_splits)
      qed
    next
      case False
      with res show ?thesis by (auto simp: visitNeighbor_def n inCrop_def split: if_splits)
    qed
    with K False show ?thesis by auto
  qed
qed

lemma visitNeighbor_fold_fillState:
  assumes "fillState W H data p0 M0 D stack visited"
    and "q \<in> D" and "\<forall>n \<in> set ns. adjacent q n"
    and "fold (visitNeighbor W H data) ns (stack, visited) = (stack', visited')"
  shows "fillState W H data p0 M0 D stack' visited' \<and>
         (\<forall>n \<in> set ns. foregroundPixel W H data n \<longrightarrow> n \<in> markedSet W H visited') \<and>
         markedSet W H visited \<subseteq> markedSet W H visited'"
  using assms
proof (induction ns arbitrary: stack visited)
  case Nil
  then show ?case by simp
next
  case (Cons n ns)
  obtain s1 v1 where st: "visitNeighbor W H data n (stack, visited) = (s1, v1)"
    by (cases "visitNeighbor W H data n (stack, visited)")
  from Cons.prems(3) have adj: "adjacent q n" and rest: "\<forall>n \<in> set ns. adjacent q n" by simp_all
  note one = visitNeighbor_fillState [OF Cons.prems(1) Cons.prems(2) adj st]
  from Cons.prems(4) have f: "fold (visitNeighbor W H data) ns (s1, v1) = (stack', visited')"
    by (simp add: st)
  from one have k1: "fillState W H data p0 M0 D s1 v1" by simp
  note two = Cons.IH [OF k1 Cons.prems(2) rest f]
  from one two show ?case by auto
qed

lemma adjacent_neighbors:
  "adjacent (cx, cy) r \<longleftrightarrow> r \<in> set [(cx + 1, cy), (cx - 1, cy), (cx, cy + 1), (cx, cy - 1)]"
  by (cases r) (auto simp: adjacent_def)

lemma visitNeighbors_fillState:
  assumes "fillState W H data p0 M0 D stack visited"
    and "(cx, cy) \<in> D"
    and "visitNeighbors W H data cx cy (stack, visited) = (stack', visited')"
  shows "fillState W H data p0 M0 D stack' visited' \<and>
         (\<forall>r. adjacent (cx, cy) r \<and> foregroundPixel W H data r \<longrightarrow> r \<in> markedSet W H visited') \<and>
         markedSet W H visited \<subseteq> markedSet W H visited'"
proof -
  let ?ns = "[(cx + 1, cy), (cx - 1, cy), (cx, cy + 1), (cx, cy - 1)]"
  have a: "\<forall>n \<in> set ?ns. adjacent (cx, cy) n" by (simp add: adjacent_def)
  from assms(3) have f: "fold (visitNeighbor W H data) ?ns (stack, visited) = (stack', visited')"
    by (simp add: visitNeighbors_def Let_def)
  from visitNeighbor_fold_fillState [OF assms(1,2) a f] show ?thesis
    unfolding adjacent_neighbors by blast
qed

lemma floodFill_detInv:
  assumes "detInv W H data p0 M0 D stack visited"
    and "count = card D" and "box = boundingBox (insert p0 D)"
    and "floodFill W H data stack visited box count = (visited', box', count')"
  shows "\<exists>D'. detInv W H data p0 M0 D' [] visited' \<and> count' = card D' \<and>
              box' = boundingBox (insert p0 D')"
  using assms
proof (induction W H data stack visited box count arbitrary: D rule: floodFill.induct)
  case (1 W H data visited box count)
  then show ?case by (auto simp: floodFill.simps)
next
  case (2 W H data cx cy stack visited box count)
  let ?q = "(cx, cy)" and ?D1 = "insert (cx, cy) D"
  note inv = "2.prems"(1) [unfolded detInv_def fillState_def]
  obtain stack1 visited1 where
    f: "visitNeighbors W H data cx cy (stack, visited) = (stack1, visited1)"
    by (cases "visitNeighbors W H data cx cy (stack, visited)")
  have r: "floodFill W H data stack1 visited1 (growBox cx cy box) (count + 1)
             = (visited', box', count')"
    using "2.prems"(4) f by (simp add: floodFill.simps)
  from inv have qD: "?q \<notin> D" and qs: "?q \<notin> set stack" by auto
  have finD: "finite D"
    using inv finite_component [of W H data p0] by (auto intro: finite_subset)
  have K: "fillState W H data p0 M0 ?D1 stack visited"
    unfolding fillState_def using inv qs by auto
  have qD1: "?q \<in> ?D1" by simp
  note vn = visitNeighbors_fillState [OF K qD1 f]
  from vn have K1: "fillState W H data p0 M0 ?D1 stack1 visited1"
    and nb: "\<forall>r. adjacent ?q r \<and> foregroundPixel W H data r \<longrightarrow> r \<in> markedSet W H visited1"
    and mono: "markedSet W H visited \<subseteq> markedSet W H visited1"
    by blast+
  have e: "\<forall>d \<in> ?D1. \<forall>r. adjacent d r \<and> foregroundPixel W H data r \<longrightarrow>
             r \<in> markedSet W H visited1"
    using inv nb mono by blast
  have p0: "p0 \<in> ?D1 \<union> set stack1"
  proof -
    from inv have "p0 \<in> ?D1 \<union> set stack" by auto
    moreover have "set stack \<subseteq> ?D1 \<union> set stack1"
    proof
      fix s assume s: "s \<in> set stack"
      with inv have "s \<in> markedSet W H visited" "s \<notin> M0" by auto
      with mono K1 show "s \<in> ?D1 \<union> set stack1" by (auto simp: fillState_def)
    qed
    ultimately show ?thesis by auto
  qed
  have inv1: "detInv W H data p0 M0 ?D1 stack1 visited1"
    unfolding detInv_def using K1 e p0 by simp
  have c1: "count + 1 = card ?D1" using "2.prems"(2) qD finD by simp
  have b1: "growBox cx cy box = boundingBox (insert p0 ?D1)"
  proof -
    have "boundingBox (insert ?q (insert p0 D)) = growBox cx cy (boundingBox (insert p0 D))"
      using finD by (intro boundingBox_insert) simp_all
    then show ?thesis by (simp add: "2.prems"(3) insert_commute)
  qed
  show ?case
    by (rule "2.IH" [OF f [symmetric] inv1 c1 b1 r])
qed

lemma detInv_final:
  assumes inv: "detInv W H data p0 M0 D [] visited"
    and dis: "M0 \<inter> component W H data p0 = {}"
  shows "D = component W H data p0 \<and> markedSet W H visited = M0 \<union> component W H data p0"
proof -
  from inv have e: "\<And>d r. d \<in> D \<Longrightarrow> adjacent d r \<Longrightarrow> foregroundPixel W H data r \<Longrightarrow>
                     r \<in> markedSet W H visited"
    unfolding detInv_def by blast
  from inv have ms: "markedSet W H visited = M0 \<union> D"
    unfolding detInv_def fillState_def by simp
  from inv have p0: "p0 \<in> D" unfolding detInv_def by simp
  from inv have sub: "D \<subseteq> component W H data p0"
    unfolding detInv_def fillState_def by simp
  have "r \<in> D" if "connected W H data p0 r" for r
    using that
  proof (induction rule: connected.induct)
    case start
    show ?case by (rule p0)
  next
    case (step q r)
    have "r \<in> markedSet W H visited" using step.IH step.hyps(2,3) by (rule e)
    then have "r \<in> M0 \<or> r \<in> D" by (simp add: ms)
    moreover have "connected W H data p0 r"
      using step.hyps by (rule connected.step)
    then have "r \<in> component W H data p0" by (simp add: component_def)
    with dis have "r \<notin> M0" by blast
    ultimately show ?case by simp
  qed
  then have "component W H data p0 \<subseteq> D" by (auto simp: component_def)
  with sub have "D = component W H data p0" by (rule equalityI)
  with ms show ?thesis by simp
qed

lemma floodFill_component:
  assumes len: "length visited = nat (W * H)"
    and fg: "foregroundPixel W H data (x, y)"
    and dis: "markedSet W H visited \<inter> component W H data (x, y) = {}"
    and fill: "floodFill W H data [(x, y)] (arraySet visited (y * W + x) 1)
                 \<lparr>minX = x, maxX = x, minY = y, maxY = y\<rparr> 0 = (visited', box, count)"
  shows "markedSet W H visited' = markedSet W H visited \<union> component W H data (x, y) \<and>
         count = card (component W H data (x, y)) \<and>
         box = boundingBox (component W H data (x, y)) \<and>
         length visited' = nat (W * H)"
proof -
  let ?p = "(x, y)" and ?M0 = "markedSet W H visited"
  from fg have c: "inCrop W H ?p" by (simp add: foregroundPixel_def)
  have self: "?p \<in> component W H data ?p" using fg by (rule component_self)
  with dis have pm: "?p \<notin> ?M0" by auto
  have ms: "markedSet W H (arraySet visited (y * W + x) 1) = insert ?p ?M0"
    by (rule markedSet_arraySet [OF len c])
  have inv0: "detInv W H data ?p ?M0 {} [?p] (arraySet visited (y * W + x) 1)"
    unfolding detInv_def fillState_def using len pm ms self by auto
  have b0: "\<lparr>minX = x, maxX = x, minY = y, maxY = y\<rparr> = boundingBox (insert ?p {})"
    by (simp add: boundingBox_single)
  from floodFill_detInv [OF inv0 _ b0 fill]
  obtain D' where inv': "detInv W H data ?p ?M0 D' [] visited'"
    and cnt: "count = card D'" and box: "box = boundingBox (insert ?p D')"
    by auto
  from detInv_final [OF inv' dis] have D': "D' = component W H data ?p"
    and m: "markedSet W H visited' = ?M0 \<union> component W H data ?p" by simp_all
  from inv' have l: "length visited' = nat (W * H)" by (simp add: detInv_def fillState_def)
  from D' self have "insert ?p D' = component W H data ?p" by auto
  with cnt box m l D' show ?thesis by simp
qed

lemma finite_passingComponents: "finite (passingComponents W H data M)"
proof -
  have "C \<in> Pow {p. inCrop W H p}" if "C \<in> passingComponents W H data M" for C
  proof -
    from that obtain p where C: "C = component W H data p"
      unfolding passingComponents_def by blast
    have "q \<in> {p. inCrop W H p}" if "q \<in> C" for q
      using component_foreground [of q W H data p] that
      by (simp add: C foregroundPixel_def)
    then show ?thesis by blast
  qed
  then have "passingComponents W H data M \<subseteq> Pow {p. inCrop W H p}" by blast
  moreover have "finite (Pow {p. inCrop W H p})" using finite_inCrop by simp
  ultimately show ?thesis by (rule finite_subset)
qed

lemma passingComponents_extend:
  assumes closed: "\<forall>p \<in> M. foregroundPixel W H data p \<and> component W H data p \<subseteq> M"
    and fg: "foregroundPixel W H data q"
    and dis: "M \<inter> component W H data q = {}"
  shows "passingComponents W H data (M \<union> component W H data q) =
           (if passesThresholds (component W H data q)
            then insert (component W H data q) (passingComponents W H data M)
            else passingComponents W H data M)"
    and "component W H data q \<notin> passingComponents W H data M"
proof -
  let ?C = "component W H data q"
  have q: "q \<in> ?C" using fg by (rule component_self)
  have eq: "component W H data p = ?C" if "p \<in> ?C" for p using that by (rule component_eq)
  have split: "passingComponents W H data (M \<union> ?C) =
                 passingComponents W H data M \<union> passingComponents W H data ?C"
    unfolding passingComponents_def by blast
  have own: "passingComponents W H data ?C = (if passesThresholds ?C then {?C} else {})"
  proof (cases "passesThresholds ?C")
    case True
    have "passingComponents W H data ?C = {?C}"
    proof (rule equalityI; rule subsetI)
      fix D assume "D \<in> passingComponents W H data ?C"
      then obtain p where "p \<in> ?C" "D = component W H data p"
        unfolding passingComponents_def by blast
      with eq [of p] show "D \<in> {?C}" by simp
    next
      fix D assume "D \<in> {?C}"
      then have "D = ?C" by simp
      with q True show "D \<in> passingComponents W H data ?C"
        unfolding passingComponents_def by blast
    qed
    with True show ?thesis by simp
  next
    case False
    have "passingComponents W H data ?C = {}"
    proof (rule equals0I)
      fix D assume "D \<in> passingComponents W H data ?C"
      then obtain p where "p \<in> ?C" "D = component W H data p" "passesThresholds D"
        unfolding passingComponents_def by blast
      with eq [of p] False show False by simp
    qed
    with False show ?thesis by simp
  qed
  show "passingComponents W H data (M \<union> ?C) =
           (if passesThresholds ?C then insert ?C (passingComponents W H data M)
            else passingComponents W H data M)"
    unfolding split own by simp
  show "?C \<notin> passingComponents W H data M"
  proof
    assume "?C \<in> passingComponents W H data M"
    then obtain p where p: "p \<in> M" "?C = component W H data p"
      unfolding passingComponents_def by blast
    from closed p(1) have "foregroundPixel W H data p" by blast
    then have "p \<in> component W H data p" by (rule component_self)
    with p dis show False by blast
  qed
qed

lemma scanPixel_scanInv:
  assumes inv: "scanInv W H data s" and c: "inCrop W H (x, y)"
  shows "scanInv W H data (scanPixel W H data y x s) \<and>
         markedSet W H (fst s) \<subseteq> markedSet W H (fst (scanPixel W H data y x s)) \<and>
         (foregroundPixel W H data (x, y) \<longrightarrow>
            (x, y) \<in> markedSet W H (fst (scanPixel W H data y x s)))"
proof -
  obtain visited rawRects where s: "s = (visited, rawRects)" by (cases s)
  note i = inv [unfolded scanInv_def s, simplified]
  from i have len: "length visited = nat (W * H)" by simp
  let ?M = "markedSet W H visited"
  from i have closed: "\<forall>p \<in> ?M. foregroundPixel W H data p \<and> component W H data p \<subseteq> ?M"
    by simp
  show ?thesis
  proof (cases "truthy (arrayGet visited (y * W + x))")
    case True
    then have "scanPixel W H data y x s = s" by (simp add: scanPixel_def s)
    moreover from True c have "(x, y) \<in> ?M" by (simp add: markedSet_def marked_def)
    ultimately show ?thesis using inv by (simp add: s)
  next
    case nt: False
    then have nm: "(x, y) \<notin> ?M" by (simp add: markedSet_def marked_def)
    show ?thesis
    proof (cases "backgroundAt data (getIdx W x y)")
      case True
      then have "scanPixel W H data y x s = s" using nt by (simp add: scanPixel_def s Let_def)
      moreover from True have "\<not> foregroundPixel W H data (x, y)"
        by (simp add: foregroundPixel_def)
      ultimately show ?thesis using inv by simp
    next
      case False
      with c have fg: "foregroundPixel W H data (x, y)" by (simp add: foregroundPixel_def)
      let ?C = "component W H data (x, y)"
      have dis: "?M \<inter> ?C = {}"
      proof (rule ccontr)
        assume "?M \<inter> ?C \<noteq> {}"
        then obtain r where r: "r \<in> ?M" "r \<in> ?C" by auto
        from r(2) have "connected W H data r (x, y)"
          by (simp add: component_def connected_sym)
        then have "(x, y) \<in> component W H data r" by (simp add: component_def)
        with closed r(1) have "(x, y) \<in> ?M" by auto
        with nm show False by simp
      qed
      obtain visited' box count where
        fill: "floodFill W H data [(x, y)] (arraySet visited (y * W + x) 1)
                 \<lparr>minX = x, maxX = x, minY = y, maxY = y\<rparr> 0 = (visited', box, count)"
        by (cases "floodFill W H data [(x, y)] (arraySet visited (y * W + x) 1)
                 \<lparr>minX = x, maxX = x, minY = y, maxY = y\<rparr> 0")
      note fc = floodFill_component [OF len fg dis fill]
      from fc have m': "markedSet W H visited' = ?M \<union> ?C" and cnt: "count = card ?C"
        and bx: "box = boundingBox ?C" and len': "length visited' = nat (W * H)"
        by simp_all
      have pass: "(count > 50 \<and> maxX box - minX box > 5 \<and> maxY box - minY box > 5)
                    = passesThresholds ?C"
        by (simp add: passesThresholds_def cnt bx)
      have res: "scanPixel W H data y x s =
                   (visited', if passesThresholds ?C then rawRects @ [box] else rawRects)"
        using nt False fill pass by (simp add: scanPixel_def s Let_def)
      note pe = passingComponents_extend [OF closed fg dis]
      have closed': "\<forall>p \<in> ?M \<union> ?C. foregroundPixel W H data p \<and> component W H data p \<subseteq> ?M \<union> ?C"
      proof
        fix p assume "p \<in> ?M \<union> ?C"
        then show "foregroundPixel W H data p \<and> component W H data p \<subseteq> ?M \<union> ?C"
        proof
          assume "p \<in> ?M"
          with closed show ?thesis by auto
        next
          assume p: "p \<in> ?C"
          then have "component W H data p = ?C" by (rule component_eq)
          with p component_foreground [OF p] show ?thesis by simp
        qed
      qed
      have sets: "set (if passesThresholds ?C then rawRects @ [box] else rawRects) =
                    boundingBox ` passingComponents W H data (?M \<union> ?C)"
        using i by (simp add: pe(1) bx)
      have lens: "length (if passesThresholds ?C then rawRects @ [box] else rawRects) =
                    card (passingComponents W H data (?M \<union> ?C))"
        using i pe(2) finite_passingComponents [of W H data ?M] by (simp add: pe(1))
      have "scanInv W H data (scanPixel W H data y x s)"
        unfolding res scanInv_def using len' closed' sets lens by (simp add: m')
      moreover have "(x, y) \<in> markedSet W H (fst (scanPixel W H data y x s))"
        using component_self [OF fg] by (simp add: res m')
      moreover have "?M \<subseteq> markedSet W H (fst (scanPixel W H data y x s))"
        by (simp add: res m')
      ultimately show ?thesis by (simp add: s)
    qed
  qed
qed

lemma scan_row_scanInv:
  assumes "scanInv W H data s" and "\<forall>x \<in> set xs. inCrop W H (x, y)"
  shows "scanInv W H data (fold (scanPixel W H data y) xs s) \<and>
         markedSet W H (fst s) \<subseteq> markedSet W H (fst (fold (scanPixel W H data y) xs s)) \<and>
         (\<forall>x \<in> set xs. foregroundPixel W H data (x, y) \<longrightarrow>
            (x, y) \<in> markedSet W H (fst (fold (scanPixel W H data y) xs s)))"
  using assms
proof (induction xs arbitrary: s)
  case Nil
  then show ?case by simp
next
  case (Cons x xs)
  from Cons.prems(2) have c: "inCrop W H (x, y)" and rest: "\<forall>x \<in> set xs. inCrop W H (x, y)"
    by simp_all
  note one = scanPixel_scanInv [OF Cons.prems(1) c]
  from one have i1: "scanInv W H data (scanPixel W H data y x s)" by simp
  note two = Cons.IH [OF i1 rest]
  from one two show ?case by auto
qed

lemma scan_rows_scanInv:
  assumes "scanInv W H data s" and "\<forall>y \<in> set ys. \<forall>x \<in> set xs. inCrop W H (x, y)"
  shows "scanInv W H data (fold (\<lambda>y. fold (scanPixel W H data y) xs) ys s) \<and>
         markedSet W H (fst s)
           \<subseteq> markedSet W H (fst (fold (\<lambda>y. fold (scanPixel W H data y) xs) ys s)) \<and>
         (\<forall>y \<in> set ys. \<forall>x \<in> set xs. foregroundPixel W H data (x, y) \<longrightarrow>
            (x, y) \<in> markedSet W H (fst (fold (\<lambda>y. fold (scanPixel W H data y) xs) ys s)))"
  using assms
proof (induction ys arbitrary: s)
  case Nil
  then show ?case by simp
next
  case (Cons y ys)
  from Cons.prems(2) have c: "\<forall>x \<in> set xs. inCrop W H (x, y)"
    and rest: "\<forall>y \<in> set ys. \<forall>x \<in> set xs. inCrop W H (x, y)"
    by simp_all
  note one = scan_row_scanInv [OF Cons.prems(1) c]
  from one have i1: "scanInv W H data (fold (scanPixel W H data y) xs s)" by simp
  note two = Cons.IH [OF i1 rest]
  from one two show ?case by auto
qed

lemma detectComponents_components:
  "set (detectComponents W H data) =
     boundingBox ` passingComponents W H data {p. foregroundPixel W H data p} \<and>
   length (detectComponents W H data) =
     card (passingComponents W H data {p. foregroundPixel W H data p})"
proof -
  let ?init = "(replicate (nat (W * H)) (0::nat), [] :: Rect list)"
  let ?s = "fold (\<lambda>y. fold (scanPixel W H data y) [0 .. W - 1]) [0 .. H - 1] ?init"
  have m0: "markedSet W H (replicate (nat (W * H)) 0) = {}"
    by (simp add: markedSet_def not_marked_replicate)
  have i0: "scanInv W H data ?init"
    by (simp add: scanInv_def m0 passingComponents_def)
  have c: "\<forall>y \<in> set [0 .. H - 1]. \<forall>x \<in> set [0 .. W - 1]. inCrop W H (x, y)"
    by (simp add: inCrop_def)
  note r = scan_rows_scanInv [OF i0 c]
  have "markedSet W H (fst ?s) = {p. foregroundPixel W H data p}"
  proof (rule equalityI; rule subsetI)
    fix p assume "p \<in> markedSet W H (fst ?s)"
    moreover from r have "\<forall>p \<in> markedSet W H (fst ?s). foregroundPixel W H data p"
      unfolding scanInv_def by blast
    ultimately show "p \<in> {p. foregroundPixel W H data p}" by blast
  next
    fix p assume "p \<in> {p. foregroundPixel W H data p}"
    then have fg: "foregroundPixel W H data p" by simp
    obtain x y where p: "p = (x, y)" by (cases p)
    from fg have "y \<in> set [0 .. H - 1]" "x \<in> set [0 .. W - 1]"
      by (simp_all add: foregroundPixel_def inCrop_def p)
    with r fg show "p \<in> markedSet W H (fst ?s)" unfolding p by blast
  qed
  with r show ?thesis by (simp add: scanInv_def detectComponents_def)
qed

section \<open>Evaluations of the detector on two blocks of ink\<close>

lemma detect_single:
  assumes w: "0 < width" and h: "0 < height"
    and first: "\<not> backgroundAt data (getIdx width 0 0)"
    and fill: "floodFill width height data [(0, 0)]
                 (arraySet (replicate (nat (width * height)) 0) (0 * width + 0) 1)
                 \<lparr>minX = 0, maxX = 0, minY = 0, maxY = 0\<rparr> 0
               = (replicate (nat (width * height)) 1, box, count)"
  shows "detectComponents width height data =
           (if count > 50 \<and> maxX box - minX box > 5 \<and> maxY box - minY box > 5
            then [box] else [])"
proof -
  let ?n = "nat (width * height)"
  define out where "out = (if count > 50 \<and> maxX box - minX box > 5 \<and> maxY box - minY box > 5
              then [box] else [])"
  have xs: "[0 .. width - 1] = 0 # [1 .. width - 1]" using w by (simp add: upto_rec1)
  have ys: "[0 .. height - 1] = 0 # [1 .. height - 1]" using h by (simp add: upto_rec1)
  have "0 < width * height" using w h by simp
  then have nv: "\<not> truthy (arrayGet (replicate ?n 0) (0 * width + 0))"
    by (simp add: truthy_def arrayGet_def)
  have s0: "scanPixel width height data 0 0 (replicate ?n 0, []) = (replicate ?n 1, out)"
    using nv first fill by (simp add: scanPixel_def Let_def out_def)
  have all: "truthy (arrayGet (replicate ?n 1) (y * width + x))"
    if "0 \<le> x" "x < width" "0 \<le> y" "y < height" for x y
  proof -
    from that have "inCrop width height (x, y)" by (simp add: inCrop_def)
    from pixelIndex_range [OF this] show ?thesis
      by (intro truthy_replicate) simp_all
  qed
  have row0: "fold (scanPixel width height data 0) [0 .. width - 1] (replicate ?n 0, [])
                = (replicate ?n 1, out)"
  proof -
    have "\<forall>x \<in> set [1 .. width - 1]. truthy (arrayGet (replicate ?n 1) (0 * width + x))"
    proof
      fix x assume "x \<in> set [1 .. width - 1]"
      then have "0 \<le> x" "x < width" by simp_all
      from all [OF this _ h] show "truthy (arrayGet (replicate ?n 1) (0 * width + x))" by simp
    qed
    then have "fold (scanPixel width height data 0) [1 .. width - 1] (replicate ?n 1, out)
                 = (replicate ?n 1, out)"
      by (rule scan_row_visited)
    then show ?thesis unfolding xs by (simp only: fold_simps o_apply s0)
  qed
  have "fold (\<lambda>y. fold (scanPixel width height data y) [0 .. width - 1]) [0 .. height - 1]
            (replicate ?n 0, []) = (replicate ?n 1, out)"
  proof -
    have "\<forall>y \<in> set [1 .. height - 1]. \<forall>x \<in> set [0 .. width - 1].
            truthy (arrayGet (replicate ?n 1) (y * width + x))"
    proof (intro ballI)
      fix x y assume "y \<in> set [1 .. height - 1]" "x \<in> set [0 .. width - 1]"
      then have "0 \<le> x" "x < width" "0 \<le> y" "y < height" by simp_all
      then show "truthy (arrayGet (replicate ?n 1) (y * width + x))" by (rule all)
    qed
    then have "fold (\<lambda>y. fold (scanPixel width height data y) [0 .. width - 1]) [1 .. height - 1]
                 (replicate ?n 1, out) = (replicate ?n 1, out)"
      by (rule scan_rows_visited)
    then show ?thesis unfolding ys by (simp only: fold_simps o_apply row0)
  qed
  then show ?thesis by (simp add: detectComponents_def out_def)
qed

lemma fill_6x9:
  "floodFill 6 9 (inkBlock 54) [(0, 0)] (arraySet (replicate 54 0) (0 * 6 + 0) 1)
     \<lparr>minX = 0, maxX = 0, minY = 0, maxY = 0\<rparr> 0
   = (replicate 54 1, \<lparr>minX = 0, maxX = 5, minY = 0, maxY = 8\<rparr>, 54)"
  by code_simp

lemma fill_7x8:
  "floodFill 7 8 (inkBlock 56) [(0, 0)] (arraySet (replicate 56 0) (0 * 7 + 0) 1)
     \<lparr>minX = 0, maxX = 0, minY = 0, maxY = 0\<rparr> 0
   = (replicate 56 1, \<lparr>minX = 0, maxX = 6, minY = 0, maxY = 7\<rparr>, 56)"
  by code_simp

lemma detect_6x9: "detectComponents 6 9 (inkBlock 54) = []"
  using detect_single [of 6 9 "inkBlock 54"] fill_6x9 inkBlock_first [of 53 6]
  by simp

lemma detect_7x8:
  "detectComponents 7 8 (inkBlock 56) = [\<lparr>minX = 0, maxX = 6, minY = 0, maxY = 7\<rparr>]"
  using detect_single [of 7 8 "inkBlock 56"] fill_7x8 inkBlock_first [of 55 7]
  by simp

lemma component_6x9:
  "foregroundPixel 6 9 (inkBlock 54) (0, 0) \<and>
   card (component 6 9 (inkBlock 54) (0, 0)) = 54 \<and>
   boundingBox (component 6 9 (inkBlock 54) (0, 0)) = \<lparr>minX = 0, maxX = 5, minY = 0, maxY = 8\<rparr>"
proof -
  have fg: "foregroundPixel 6 9 (inkBlock 54) (0, 0)"
    using inkBlock_first [of 53 6] by (simp add: foregroundPixel_def inCrop_def)
  have len: "length (replicate 54 (0::nat)) = nat (6 * 9)" by simp
  have dis: "markedSet 6 9 (replicate 54 0) \<inter> component 6 9 (inkBlock 54) (0, 0) = {}"
    by (simp add: markedSet_def not_marked_replicate)
  from floodFill_component [OF len fg dis fill_6x9] fg show ?thesis by simp
qed

lemma component_7x8:
  "foregroundPixel 7 8 (inkBlock 56) (0, 0) \<and>
   card (component 7 8 (inkBlock 56) (0, 0)) = 56 \<and>
   boundingBox (component 7 8 (inkBlock 56) (0, 0)) = \<lparr>minX = 0, maxX = 6, minY = 0, maxY = 7\<rparr>"
proof -
  have fg: "foregroundPixel 7 8 (inkBlock 56) (0, 0)"
    using inkBlock_first [of 55 7] by (simp add: foregroundPixel_def inCrop_def)
  have len: "length (replicate 56 (0::nat)) = nat (7 * 8)" by simp
  have dis: "markedSet 7 8 (replicate 56 0) \<inter> component 7 8 (inkBlock 56) (0, 0) = {}"
    by (simp add: markedSet_def not_marked_replicate)
  from floodFill_component [OF len fg dis fill_7x8] fg show ?thesis by simp
qed

section \<open>The claims\<close>

text \<open>
  Claim C1. In the list that \<open>mergeRects\<close> returns, any two rectangles at different positions
  are at least the threshold apart in X or at least the threshold apart in Y, the gaps
  being those the merger computes (\<open>xDist\<close>, \<open>yDist\<close>).
\<close>

theorem mergeRects_separated:
  assumes "i < length (mergeRects rects t)" and "j < length (mergeRects rects t)" and "i \<noteq> j"
  shows "t \<le> xDist (mergeRects rects t ! i) (mergeRects rects t ! j) \<or>
         t \<le> yDist (mergeRects rects t ! i) (mergeRects rects t ! j)"
  using assms mergeLoop_noClosePair [of rects t]
  unfolding mergeRects_def by (rule noClosePair_any [rotated])

theorem mergeRects_separated_witness:
  "0 < length (mergeRects [\<lparr>minX = 0, maxX = 19, minY = 0, maxY = 19\<rparr>,
                            \<lparr>minX = 30, maxX = 49, minY = 30, maxY = 49\<rparr>,
                            \<lparr>minX = 60, maxX = 79, minY = 0, maxY = 19\<rparr>] 5) \<and>
   2 < length (mergeRects [\<lparr>minX = 0, maxX = 19, minY = 0, maxY = 19\<rparr>,
                            \<lparr>minX = 30, maxX = 49, minY = 30, maxY = 49\<rparr>,
                            \<lparr>minX = 60, maxX = 79, minY = 0, maxY = 19\<rparr>] 5) \<and>
   (0::nat) \<noteq> 2 \<and>
   (5 \<le> xDist (mergeRects [\<lparr>minX = 0, maxX = 19, minY = 0, maxY = 19\<rparr>,
                            \<lparr>minX = 30, maxX = 49, minY = 30, maxY = 49\<rparr>,
                            \<lparr>minX = 60, maxX = 79, minY = 0, maxY = 19\<rparr>] 5 ! 0)
                 (mergeRects [\<lparr>minX = 0, maxX = 19, minY = 0, maxY = 19\<rparr>,
                            \<lparr>minX = 30, maxX = 49, minY = 30, maxY = 49\<rparr>,
                            \<lparr>minX = 60, maxX = 79, minY = 0, maxY = 19\<rparr>] 5 ! 2) \<or>
    5 \<le> yDist (mergeRects [\<lparr>minX = 0, maxX = 19, minY = 0, maxY = 19\<rparr>,
                            \<lparr>minX = 30, maxX = 49, minY = 30, maxY = 49\<rparr>,
                            \<lparr>minX = 60, maxX = 79, minY = 0, maxY = 19\<rparr>] 5 ! 0)
                 (mergeRects [\<lparr>minX = 0, maxX = 19, minY = 0, maxY = 19\<rparr>,
                            \<lparr>minX = 30, maxX = 49, minY = 30, maxY = 49\<rparr>,
                            \<lparr>minX = 60, maxX = 79, minY = 0, maxY = 19\<rparr>] 5 ! 2))"
proof -
  have len: "length (mergeRects [\<lparr>minX = 0, maxX = 19, minY = 0, maxY = 19\<rparr>,
                            \<lparr>minX = 30, maxX = 49, minY = 30, maxY = 49\<rparr>,
                            \<lparr>minX = 60, maxX = 79, minY = 0, maxY = 19\<rparr>] 5) = 3"
    by (simp add: mergeRects_def mergeLoop.simps mergePass_def mergeOuter_def mergeInner_def
      xDist_def yDist_def upt_rec)
  show ?thesis
    using mergeRects_separated [of 0 "[\<lparr>minX = 0, maxX = 19, minY = 0, maxY = 19\<rparr>,
                            \<lparr>minX = 30, maxX = 49, minY = 30, maxY = 49\<rparr>,
                            \<lparr>minX = 60, maxX = 79, minY = 0, maxY = 19\<rparr>]" 5 2]
    by (simp add: len)
qed

text \<open>
  Claim C2, as the code has it. The detector returns exactly one rectangle for each
  connected component of non-background pixels that has more than 50 pixels and whose
  bounding box has \<open>maxX - minX > 5\<close> and \<open>maxY - minY > 5\<close>, namely that bounding box, and
  nothing else. The differences are one less than the numbers of columns and rows, so such a
  component spans at least 7 columns and 7 rows. The claim's reading of the thresholds
  (\<open>maxX - minX + 1 > 5\<close>) fails on a block of ink 6 pixels wide and 9 high: it is one
  component of 54 pixels and no rectangle is returned.
\<close>

theorem detectComponents_thresholds:
  "set (detectComponents width height data) =
     {boundingBox C | C.
        (\<exists>p. foregroundPixel width height data p \<and> C = component width height data p) \<and>
        card C > 50 \<and>
        maxX (boundingBox C) - minX (boundingBox C) > 5 \<and>
        maxY (boundingBox C) - minY (boundingBox C) > 5} \<and>
   length (detectComponents width height data) =
     card {C.
        (\<exists>p. foregroundPixel width height data p \<and> C = component width height data p) \<and>
        card C > 50 \<and>
        maxX (boundingBox C) - minX (boundingBox C) > 5 \<and>
        maxY (boundingBox C) - minY (boundingBox C) > 5}"
proof -
  have "passingComponents width height data {p. foregroundPixel width height data p} =
          {C. (\<exists>p. foregroundPixel width height data p \<and> C = component width height data p) \<and>
              card C > 50 \<and>
              maxX (boundingBox C) - minX (boundingBox C) > 5 \<and>
              maxY (boundingBox C) - minY (boundingBox C) > 5}"
    unfolding passingComponents_def passesThresholds_def by blast
  with detectComponents_components [of width height data] show ?thesis
    by (simp add: image_Collect)
qed

theorem detectComponents_thresholds_witness:
  "foregroundPixel 7 8 (inkBlock 56) (0, 0) \<and>
   card (component 7 8 (inkBlock 56) (0, 0)) = 56 \<and>
   boundingBox (component 7 8 (inkBlock 56) (0, 0)) = \<lparr>minX = 0, maxX = 6, minY = 0, maxY = 7\<rparr> \<and>
   boundingBox (component 7 8 (inkBlock 56) (0, 0)) \<in> set (detectComponents 7 8 (inkBlock 56)) \<and>
   length (detectComponents 7 8 (inkBlock 56)) = 1 \<and>
   card {C. (\<exists>p. foregroundPixel 7 8 (inkBlock 56) p \<and> C = component 7 8 (inkBlock 56) p) \<and>
            card C > 50 \<and>
            maxX (boundingBox C) - minX (boundingBox C) > 5 \<and>
            maxY (boundingBox C) - minY (boundingBox C) > 5} = 1"
proof -
  note t = detectComponents_thresholds [of 7 8 "inkBlock 56"]
  from t have "card {C. (\<exists>p. foregroundPixel 7 8 (inkBlock 56) p \<and> C = component 7 8 (inkBlock 56) p) \<and>
            card C > 50 \<and>
            maxX (boundingBox C) - minX (boundingBox C) > 5 \<and>
            maxY (boundingBox C) - minY (boundingBox C) > 5} = length (detectComponents 7 8 (inkBlock 56))"
    by simp
  with component_7x8 detect_7x8 show ?thesis by simp
qed

theorem detectComponents_thresholds_counterexample:
  "foregroundPixel 6 9 (inkBlock 54) (0, 0) \<and>
   card (component 6 9 (inkBlock 54) (0, 0)) = 54 \<and> (54::nat) > 50 \<and>
   boundingBox (component 6 9 (inkBlock 54) (0, 0)) = \<lparr>minX = 0, maxX = 5, minY = 0, maxY = 8\<rparr> \<and>
   maxX \<lparr>minX = 0, maxX = 5, minY = 0, maxY = 8\<rparr> - minX \<lparr>minX = 0, maxX = 5, minY = 0, maxY = 8\<rparr> + 1 > 5 \<and>
   maxY \<lparr>minX = 0, maxX = 5, minY = 0, maxY = 8\<rparr> - minY \<lparr>minX = 0, maxX = 5, minY = 0, maxY = 8\<rparr> + 1 > 5 \<and>
   detectComponents 6 9 (inkBlock 54) = []"
  using component_6x9 detect_6x9 by simp

text \<open>
  Claim C3. For a crop of positive width and height whose buffer has four samples per pixel,
  the background removal returns, and in its result the alpha of a pixel is 0 when the pixel
  is exterior and is the old alpha otherwise; the three colour samples of every pixel are the
  old ones. In the 5 by 5 ring image the corner becomes transparent and the enclosed white
  pixel stays opaque white.
\<close>

theorem removeExteriorBackground_exterior:
  assumes "0 < finalW" and "0 < finalH"
    and "length segPixels = nat (finalW * finalH * 4)"
  shows "\<exists>out. removeExteriorBackground finalW finalH segPixels = Some out \<and>
           length out = length segPixels \<and>
           (\<forall>x y. 0 \<le> x \<and> x < finalW \<and> 0 \<le> y \<and> y < finalH \<longrightarrow>
              out ! nat ((y * finalW + x) * 4) = segPixels ! nat ((y * finalW + x) * 4) \<and>
              out ! nat ((y * finalW + x) * 4 + 1) = segPixels ! nat ((y * finalW + x) * 4 + 1) \<and>
              out ! nat ((y * finalW + x) * 4 + 2) = segPixels ! nat ((y * finalW + x) * 4 + 2) \<and>
              out ! nat ((y * finalW + x) * 4 + 3) =
                (if exterior finalW finalH segPixels (x, y) then 0
                 else segPixels ! nat ((y * finalW + x) * 4 + 3)))"
  using assms by (rule removeExteriorBackground_spec)

theorem removeExteriorBackground_exterior_witness:
  "(0::int) < 5 \<and> length ringImage = nat (5 * 5 * 4) \<and>
   (\<exists>out. removeExteriorBackground 5 5 ringImage = Some out \<and>
      out ! 3 = 0 \<and> out ! 0 = 255 \<and> out ! 51 = 255 \<and> out ! 48 = 255)"
proof -
  have len: "length ringImage = nat (5 * 5 * 4)"
    by (simp add: ringImage_def whitePixel_def inkPixel_def)
  from removeExteriorBackground_exterior [of 5 5 ringImage, OF _ _ len]
  obtain out where o: "removeExteriorBackground 5 5 ringImage = Some out"
    and p: "\<forall>x y. 0 \<le> x \<and> x < 5 \<and> 0 \<le> y \<and> y < 5 \<longrightarrow>
              out ! nat ((y * 5 + x) * 4) = ringImage ! nat ((y * 5 + x) * 4) \<and>
              out ! nat ((y * 5 + x) * 4 + 1) = ringImage ! nat ((y * 5 + x) * 4 + 1) \<and>
              out ! nat ((y * 5 + x) * 4 + 2) = ringImage ! nat ((y * 5 + x) * 4 + 2) \<and>
              out ! nat ((y * 5 + x) * 4 + 3) =
                (if exterior 5 5 ringImage (x, y) then 0
                 else ringImage ! nat ((y * 5 + x) * 4 + 3))"
    by auto
  from p [rule_format, of 0 0] ringImage_corner
  have a: "out ! 3 = 0 \<and> out ! 0 = 255"
    by (simp add: ringImage_def whitePixel_def inkPixel_def)
  from p [rule_format, of 2 2] ringImage_centre
  have b: "out ! 51 = 255 \<and> out ! 48 = 255"
    by (simp add: ringImage_def whitePixel_def inkPixel_def)
  from len o a b show ?thesis by simp
qed

text \<open>
  Claim C4. The claim asks for a crop that is the rectangle with 2 pixels added on each of
  its four sides; the code misses it by one. Its crop starts at \<open>max(0, min - 2)\<close> and is
  \<open>min(size - start, max - min + 4)\<close> long on each axis, where \<open>max - min\<close> is one less than
  the number of pixels of a rectangle with inclusive bounds. So for every rectangle at least
  2 pixels inside the source the crop is \<open>maxX - minX + 4\<close> wide and \<open>maxY - minY + 4\<close> high
  and ends at column \<open>maxX + 1\<close> and row \<open>maxY + 1\<close>: 2 pixels of padding on the left and
  top, 1 pixel on the right and bottom. For the source of 100 by 80 pixels and the rectangle
  \<open>{10, 20, 30, 50}\<close> the crop is \<open>(8, 28, 14, 24)\<close>, not 15 wide and 25 high.
\<close>

theorem cropRegion_padding:
  "cropRegion width height rect =
     (max 0 (minX rect - 2), max 0 (minY rect - 2),
      min (width - max 0 (minX rect - 2)) (maxX rect - minX rect + 4),
      min (height - max 0 (minY rect - 2)) (maxY rect - minY rect + 4)) \<and>
   (2 \<le> minX rect \<and> maxX rect + 2 \<le> width - 1 \<and>
    2 \<le> minY rect \<and> maxY rect + 2 \<le> height - 1 \<longrightarrow>
      cropRegion width height rect =
        (minX rect - 2, minY rect - 2, maxX rect - minX rect + 4, maxY rect - minY rect + 4))"
  by (auto simp: cropRegion_def Let_def)

theorem cropRegion_padding_witness:
  "(2::int) \<le> minX \<lparr>minX = 10, maxX = 20, minY = 30, maxY = 50\<rparr> \<and>
   maxX \<lparr>minX = 10, maxX = 20, minY = 30, maxY = 50\<rparr> + 2 \<le> (100::int) - 1 \<and>
   (2::int) \<le> minY \<lparr>minX = 10, maxX = 20, minY = 30, maxY = 50\<rparr> \<and>
   maxY \<lparr>minX = 10, maxX = 20, minY = 30, maxY = 50\<rparr> + 2 \<le> (80::int) - 1 \<and>
   cropRegion 100 80 \<lparr>minX = 10, maxX = 20, minY = 30, maxY = 50\<rparr> = (8, 28, 14, 24) \<and>
   (8::int) = minX \<lparr>minX = 10, maxX = 20, minY = 30, maxY = 50\<rparr> - 2 \<and>
   (8::int) + 14 - 1 = maxX \<lparr>minX = 10, maxX = 20, minY = 30, maxY = 50\<rparr> + 1 \<and>
   (8::int) + 14 - 1 \<noteq> maxX \<lparr>minX = 10, maxX = 20, minY = 30, maxY = 50\<rparr> + 2 \<and>
   (14::int) \<noteq> maxX \<lparr>minX = 10, maxX = 20, minY = 30, maxY = 50\<rparr>
                  - minX \<lparr>minX = 10, maxX = 20, minY = 30, maxY = 50\<rparr> + 5 \<and>
   (28::int) = minY \<lparr>minX = 10, maxX = 20, minY = 30, maxY = 50\<rparr> - 2 \<and>
   (28::int) + 24 - 1 = maxY \<lparr>minX = 10, maxX = 20, minY = 30, maxY = 50\<rparr> + 1 \<and>
   (28::int) + 24 - 1 \<noteq> maxY \<lparr>minX = 10, maxX = 20, minY = 30, maxY = 50\<rparr> + 2 \<and>
   (24::int) \<noteq> maxY \<lparr>minX = 10, maxX = 20, minY = 30, maxY = 50\<rparr>
                  - minY \<lparr>minX = 10, maxX = 20, minY = 30, maxY = 50\<rparr> + 5 \<and>
   cropRegion 100 80 \<lparr>minX = 0, maxX = 20, minY = 30, maxY = 50\<rparr> = (0, 28, 24, 24) \<and>
   cropRegion 100 80 \<lparr>minX = 90, maxX = 99, minY = 70, maxY = 79\<rparr> = (88, 68, 12, 12)"
  using cropRegion_padding [of 100 80 "\<lparr>minX = 10, maxX = 20, minY = 30, maxY = 50\<rparr>"]
    cropRegion_padding [of 100 80 "\<lparr>minX = 0, maxX = 20, minY = 30, maxY = 50\<rparr>"]
    cropRegion_padding [of 100 80 "\<lparr>minX = 90, maxX = 99, minY = 70, maxY = 79\<rparr>"]
  by simp

text \<open>
  Claim C5, as the code has it. Two rectangles with \<open>g\<close> empty pixel columns and \<open>g\<close> empty
  pixel rows between them are \<open>g + 1\<close> apart for the merger: they are merged into their
  union when \<open>g + 1 < t\<close> and returned as they are when \<open>t \<le> g + 1\<close>. With \<open>g = 10\<close> and
  \<open>t = 11\<close> the threshold exceeds the gap and nothing is merged.
\<close>

theorem mergeRects_gap:
  assumes "validRect a" and "validRect b" and "0 \<le> g"
    and "minX b = maxX a + g + 1 \<or> minX a = maxX b + g + 1"
    and "minY b = maxY a + g + 1 \<or> minY a = maxY b + g + 1"
  shows "(g + 1 < t \<longrightarrow>
            mergeRects [a, b] t =
              [\<lparr>minX = min (minX a) (minX b), maxX = max (maxX a) (maxX b),
                minY = min (minY a) (minY b), maxY = max (maxY a) (maxY b)\<rparr>]) \<and>
         (t \<le> g + 1 \<longrightarrow> mergeRects [a, b] t = [a, b])"
proof -
  from assms have x: "xDist a b = g + 1"
    by (auto simp: xDist_def validRect_def)
  from assms have y: "yDist a b = g + 1"
    by (auto simp: yDist_def validRect_def)
  show ?thesis by (simp add: mergeRects_pair x y)
qed

theorem mergeRects_gap_witness:
  "validRect \<lparr>minX = 0, maxX = 19, minY = 0, maxY = 19\<rparr> \<and>
   validRect \<lparr>minX = 30, maxX = 49, minY = 30, maxY = 49\<rparr> \<and> (0::int) \<le> 10 \<and>
   minX \<lparr>minX = 30, maxX = 49, minY = 30, maxY = 49\<rparr>
     = maxX \<lparr>minX = 0, maxX = 19, minY = 0, maxY = 19\<rparr> + 10 + 1 \<and>
   minY \<lparr>minX = 30, maxX = 49, minY = 30, maxY = 49\<rparr>
     = maxY \<lparr>minX = 0, maxX = 19, minY = 0, maxY = 19\<rparr> + 10 + 1 \<and>
   (10::int) + 1 < 15 \<and> (5::int) \<le> 10 + 1 \<and>
   mergeRects [\<lparr>minX = 0, maxX = 19, minY = 0, maxY = 19\<rparr>,
               \<lparr>minX = 30, maxX = 49, minY = 30, maxY = 49\<rparr>] 15
     = [\<lparr>minX = 0, maxX = 49, minY = 0, maxY = 49\<rparr>] \<and>
   mergeRects [\<lparr>minX = 0, maxX = 19, minY = 0, maxY = 19\<rparr>,
               \<lparr>minX = 30, maxX = 49, minY = 30, maxY = 49\<rparr>] 5
     = [\<lparr>minX = 0, maxX = 19, minY = 0, maxY = 19\<rparr>,
        \<lparr>minX = 30, maxX = 49, minY = 30, maxY = 49\<rparr>]"
  using mergeRects_gap [of "\<lparr>minX = 0, maxX = 19, minY = 0, maxY = 19\<rparr>"
      "\<lparr>minX = 30, maxX = 49, minY = 30, maxY = 49\<rparr>" 10 15]
    mergeRects_gap [of "\<lparr>minX = 0, maxX = 19, minY = 0, maxY = 19\<rparr>"
      "\<lparr>minX = 30, maxX = 49, minY = 30, maxY = 49\<rparr>" 10 5]
  by (simp add: validRect_def)

theorem mergeRects_gap_counterexample:
  "minX \<lparr>minX = 30, maxX = 49, minY = 30, maxY = 49\<rparr>
     - maxX \<lparr>minX = 0, maxX = 19, minY = 0, maxY = 19\<rparr> - 1 = 10 \<and>
   minY \<lparr>minX = 30, maxX = 49, minY = 30, maxY = 49\<rparr>
     - maxY \<lparr>minX = 0, maxX = 19, minY = 0, maxY = 19\<rparr> - 1 = 10 \<and>
   (10::int) < 11 \<and>
   mergeRects [\<lparr>minX = 0, maxX = 19, minY = 0, maxY = 19\<rparr>,
               \<lparr>minX = 30, maxX = 49, minY = 30, maxY = 49\<rparr>] 11
     \<noteq> [\<lparr>minX = 0, maxX = 49, minY = 0, maxY = 49\<rparr>] \<and>
   mergeRects [\<lparr>minX = 0, maxX = 19, minY = 0, maxY = 19\<rparr>,
               \<lparr>minX = 30, maxX = 49, minY = 30, maxY = 49\<rparr>] 11
     = [\<lparr>minX = 0, maxX = 19, minY = 0, maxY = 19\<rparr>,
        \<lparr>minX = 30, maxX = 49, minY = 30, maxY = 49\<rparr>]"
  by (simp add: mergeRects_def mergeLoop.simps mergePass_def mergeOuter_def mergeInner_def
      xDist_def yDist_def upt_rec)

text \<open>Claim C6. Running the merger on its own result returns that result.\<close>

theorem mergeRects_idempotent:
  "mergeRects (mergeRects rects t) t = mergeRects rects t"
  unfolding mergeRects_def
  using mergePass_fixed [OF mergeLoop_noClosePair [of rects t]]
  by (rule mergeLoop_unchanged)

theorem mergeRects_idempotent_witness:
  "mergeRects (mergeRects [\<lparr>minX = 0, maxX = 19, minY = 0, maxY = 19\<rparr>,
                           \<lparr>minX = 30, maxX = 49, minY = 30, maxY = 49\<rparr>] 15) 15
     = [\<lparr>minX = 0, maxX = 49, minY = 0, maxY = 49\<rparr>]"
proof -
  have m: "mergeRects [\<lparr>minX = 0, maxX = 19, minY = 0, maxY = 19\<rparr>,
                       \<lparr>minX = 30, maxX = 49, minY = 30, maxY = 49\<rparr>] 15
             = [\<lparr>minX = 0, maxX = 49, minY = 0, maxY = 49\<rparr>]"
    by (simp add: mergeRects_def mergeLoop.simps mergePass_def mergeOuter_def mergeInner_def
        xDist_def yDist_def upt_rec)
  from mergeRects_idempotent [of "[\<lparr>minX = 0, maxX = 19, minY = 0, maxY = 19\<rparr>,
                       \<lparr>minX = 30, maxX = 49, minY = 30, maxY = 49\<rparr>]" 15]
  show ?thesis by (simp only: m)
qed

text \<open>
  Claim C7. The extractor returns \<open>null\<close> when the crop has a width or a height that is not
  positive; when both are positive and each drawing surface is obtained, the flood fill
  returns and the extractor returns a sticker placed at the crop's corner, 12 pixels wider and
  higher than the crop, with the default name and \<open>isNaming = false\<close>. The source, the
  rectangle and the name are only read; the first case holds in every environment, since no
  drawing surface is asked for.
\<close>

theorem extractStickerFromRect_result:
  assumes "cropRegion (sourceWidth source) (sourceHeight source) rect = (finalX, finalY, finalW, finalH)"
  shows "(finalW \<le> 0 \<or> finalH \<le> 0 \<longrightarrow>
            extractStickerFromRect env source rect defaultName = Some None) \<and>
         (0 < finalW \<and> 0 < finalH \<and> segCtxOk env \<and> sCtxOk env \<and> fCtxOk env \<longrightarrow>
            (\<exists>seg. extractStickerFromRect env source rect defaultName = Some (Some seg) \<and>
                   originalX seg = finalX \<and> originalY seg = finalY \<and>
                   segWidth seg = finalW + 12 \<and> segHeight seg = finalH + 12 \<and>
                   segName seg = (case defaultName of None \<Rightarrow> ''sticker'' | Some n \<Rightarrow> n) \<and>
                   isNaming seg = False))"
proof (intro conjI impI)
  assume "finalW \<le> 0 \<or> finalH \<le> 0"
  then show "extractStickerFromRect env source rect defaultName = Some None"
    by (auto simp: extractStickerFromRect_def assms Let_def)
next
  assume a: "0 < finalW \<and> 0 < finalH \<and> segCtxOk env \<and> sCtxOk env \<and> fCtxOk env"
  then have len: "length (cropPixels source finalX finalY finalW finalH) = nat (finalW * finalH * 4)"
    by (simp add: length_cropPixels)
  from a removeExteriorBackground_spec [OF _ _ len]
  obtain out where "removeExteriorBackground finalW finalH
                      (cropPixels source finalX finalY finalW finalH) = Some out"
    by blast
  with a show "\<exists>seg. extractStickerFromRect env source rect defaultName = Some (Some seg) \<and>
                   originalX seg = finalX \<and> originalY seg = finalY \<and>
                   segWidth seg = finalW + 12 \<and> segHeight seg = finalH + 12 \<and>
                   segName seg = (case defaultName of None \<Rightarrow> ''sticker'' | Some n \<Rightarrow> n) \<and>
                   isNaming seg = False"
    by (simp add: extractStickerFromRect_def assms Let_def)
qed

theorem extractStickerFromRect_result_witness:
  "cropRegion (sourceWidth testSource) (sourceHeight testSource)
     \<lparr>minX = 2, maxX = 5, minY = 2, maxY = 5\<rparr> = (0, 0, 7, 7) \<and>
   segCtxOk testEnv \<and> sCtxOk testEnv \<and> fCtxOk testEnv \<and>
   (\<exists>seg. extractStickerFromRect testEnv testSource \<lparr>minX = 2, maxX = 5, minY = 2, maxY = 5\<rparr>
             (Some ''sticker_1'') = Some (Some seg) \<and>
          originalX seg = 0 \<and> originalY seg = 0 \<and> segWidth seg = 19 \<and> segHeight seg = 19 \<and>
          segName seg = ''sticker_1'' \<and> isNaming seg = False) \<and>
   cropRegion (sourceWidth testSource) (sourceHeight testSource)
     \<lparr>minX = 10, maxX = 12, minY = 2, maxY = 5\<rparr> = (8, 0, 0, 7) \<and>
   extractStickerFromRect testEnv testSource \<lparr>minX = 10, maxX = 12, minY = 2, maxY = 5\<rparr>
     (Some ''sticker_2'') = Some None"
proof -
  have c1: "cropRegion (sourceWidth testSource) (sourceHeight testSource)
     \<lparr>minX = 2, maxX = 5, minY = 2, maxY = 5\<rparr> = (0, 0, 7, 7)"
    by (simp add: cropRegion_def testSource_def Let_def)
  have c2: "cropRegion (sourceWidth testSource) (sourceHeight testSource)
     \<lparr>minX = 10, maxX = 12, minY = 2, maxY = 5\<rparr> = (8, 0, 0, 7)"
    by (simp add: cropRegion_def testSource_def Let_def)
  have e: "segCtxOk testEnv \<and> sCtxOk testEnv \<and> fCtxOk testEnv" by (simp add: testEnv_def)
  from extractStickerFromRect_result [OF c1, of testEnv "Some ''sticker_1''"]
    extractStickerFromRect_result [OF c2, of testEnv "Some ''sticker_2''"] c1 c2 e
  show ?thesis by simp
qed

text \<open>
  Claim C8. Every rectangle of the detector has \<open>minX \<le> maxX\<close> and \<open>minY \<le> maxY\<close>, and
  when every rectangle given to the merger has this property, so has every rectangle it
  returns.
\<close>

theorem rect_invariant:
  "(\<forall>r \<in> set (detectComponents width height data). minX r \<le> maxX r \<and> minY r \<le> maxY r) \<and>
   ((\<forall>r \<in> set rects. minX r \<le> maxX r \<and> minY r \<le> maxY r) \<longrightarrow>
      (\<forall>r \<in> set (mergeRects rects t). minX r \<le> maxX r \<and> minY r \<le> maxY r))"
proof
  show "\<forall>r \<in> set (detectComponents width height data). minX r \<le> maxX r \<and> minY r \<le> maxY r"
    by (rule detectComponents_all) simp
  show "(\<forall>r \<in> set rects. minX r \<le> maxX r \<and> minY r \<le> maxY r) \<longrightarrow>
      (\<forall>r \<in> set (mergeRects rects t). minX r \<le> maxX r \<and> minY r \<le> maxY r)"
    using mergeLoop_valid [of rects t] by (simp add: mergeRects_def validRect_def)
qed

theorem rect_invariant_witness:
  "\<lparr>minX = 0, maxX = 6, minY = 0, maxY = 7\<rparr> \<in> set (detectComponents 7 8 (inkBlock 56)) \<and>
   minX \<lparr>minX = 0, maxX = 6, minY = 0, maxY = 7\<rparr> \<le> maxX \<lparr>minX = 0, maxX = 6, minY = 0, maxY = 7\<rparr> \<and>
   minX \<lparr>minX = 0, maxX = 19, minY = 0, maxY = 19\<rparr> \<le> maxX \<lparr>minX = 0, maxX = 19, minY = 0, maxY = 19\<rparr> \<and>
   minY \<lparr>minX = 0, maxX = 19, minY = 0, maxY = 19\<rparr> \<le> maxY \<lparr>minX = 0, maxX = 19, minY = 0, maxY = 19\<rparr> \<and>
   minX \<lparr>minX = 30, maxX = 49, minY = 30, maxY = 49\<rparr> \<le> maxX \<lparr>minX = 30, maxX = 49, minY = 30, maxY = 49\<rparr> \<and>
   minY \<lparr>minX = 30, maxX = 49, minY = 30, maxY = 49\<rparr> \<le> maxY \<lparr>minX = 30, maxX = 49, minY = 30, maxY = 49\<rparr> \<and>
   \<lparr>minX = 0, maxX = 49, minY = 0, maxY = 49\<rparr>
     \<in> set (mergeRects [\<lparr>minX = 0, maxX = 19, minY = 0, maxY = 19\<rparr>,
                         \<lparr>minX = 30, maxX = 49, minY = 30, maxY = 49\<rparr>] 15) \<and>
   minY \<lparr>minX = 0, maxX = 49, minY = 0, maxY = 49\<rparr> \<le> maxY \<lparr>minX = 0, maxX = 49, minY = 0, maxY = 49\<rparr>"
proof -
  have m: "mergeRects [\<lparr>minX = 0, maxX = 19, minY = 0, maxY = 19\<rparr>,
                       \<lparr>minX = 30, maxX = 49, minY = 30, maxY = 49\<rparr>] 15
             = [\<lparr>minX = 0, maxX = 49, minY = 0, maxY = 49\<rparr>]"
    by (simp add: mergeRects_def mergeLoop.simps mergePass_def mergeOuter_def mergeInner_def
        xDist_def yDist_def upt_rec)
  from rect_invariant [of 7 8 "inkBlock 56" "[\<lparr>minX = 0, maxX = 19, minY = 0, maxY = 19\<rparr>,
                       \<lparr>minX = 30, maxX = 49, minY = 30, maxY = 49\<rparr>]" 15] detect_7x8 m
  show ?thesis by simp
qed

text \<open>
  Claim C9. The naming call never raises, and it returns \<open>"sticker"\<close> when there is no
  credential, when the model call throws, when the response has no text, when the text does
  not parse, when it parses to anything but an object (\<open>null\<close>, a number, a string, a
  boolean, an array) and when the parsed object has no truthy \<open>filename\<close>. It misses one
  malformed response: a truthy \<open>filename\<close> is returned as it is, whatever its type, so
  the response \<open>{"filename": 42}\<close> makes the function, declared to return a string,
  return the number 42.
\<close>

theorem generateStickerName_fallback:
  "(\<exists>v. generateStickerName env base64Image userApiKey = Inr v) \<and>
   (getAiClient env userApiKey = None \<longrightarrow>
      generateStickerName env base64Image userApiKey = Inr (JStr ''sticker'')) \<and>
   (\<forall>ai. getAiClient env userApiKey = Some ai \<longrightarrow>
      (\<forall>e. generateContent env ai (secondPart base64Image) = Inl e \<longrightarrow>
         generateStickerName env base64Image userApiKey = Inr (JStr ''sticker'')) \<and>
      (generateContent env ai (secondPart base64Image) = Inr None \<or>
       generateContent env ai (secondPart base64Image) = Inr (Some []) \<longrightarrow>
         generateStickerName env base64Image userApiKey = Inr (JStr ''sticker'')) \<and>
      (\<forall>t. t \<noteq> [] \<and> generateContent env ai (secondPart base64Image) = Inr (Some t) \<longrightarrow>
         (\<forall>e. jsonParse env t = Inl e \<longrightarrow>
            generateStickerName env base64Image userApiKey = Inr (JStr ''sticker'')) \<and>
         (jsonParse env t = Inr JNull \<longrightarrow>
            generateStickerName env base64Image userApiKey = Inr (JStr ''sticker'')) \<and>
         (\<forall>d. jsonParse env t = Inr d \<and> (\<forall>kvs. d \<noteq> JObj kvs) \<longrightarrow>
            generateStickerName env base64Image userApiKey = Inr (JStr ''sticker'')) \<and>
         (\<forall>kvs. jsonParse env t = Inr (JObj kvs) \<and> \<not> truthyJson (map_of kvs ''filename'') \<longrightarrow>
            generateStickerName env base64Image userApiKey = Inr (JStr ''sticker'')) \<and>
         (\<forall>kvs v. jsonParse env t = Inr (JObj kvs) \<and> map_of kvs ''filename'' = Some v \<and>
                  truthyJson (Some v) \<longrightarrow>
            generateStickerName env base64Image userApiKey = Inr v) \<and>
         (\<forall>kvs s. jsonParse env t = Inr (JObj kvs) \<and> map_of kvs ''filename'' = Some (JStr s) \<longrightarrow>
            (\<exists>s'. generateStickerName env base64Image userApiKey = Inr (JStr s')))))"
  by (auto simp: generateStickerName_def namingBody_def getFilename_def truthyJson_def Let_def
      split: option.splits sum.splits json.splits)

theorem generateStickerName_fallback_witness:
  "getAiClient \<lparr>envApiKey = None, storedApiKey = None,
                 generateContent = (\<lambda>apiKey image. Inl NetworkError),
                 jsonParse = (\<lambda>text. Inl SyntaxError)\<rparr> None = None \<and>
   generateStickerName \<lparr>envApiKey = None, storedApiKey = None,
                 generateContent = (\<lambda>apiKey image. Inl NetworkError),
                 jsonParse = (\<lambda>text. Inl SyntaxError)\<rparr> ''data:image/png;base64,AAAA'' None
     = Inr (JStr ''sticker'') \<and>
   getAiClient (keyedEnv (Inl NetworkError) (Inl SyntaxError)) None = Some ''key'' \<and>
   generateStickerName (keyedEnv (Inl NetworkError) (Inl SyntaxError))
     ''data:image/png;base64,AAAA'' None = Inr (JStr ''sticker'') \<and>
   generateStickerName (keyedEnv (Inr None) (Inl SyntaxError))
     ''data:image/png;base64,AAAA'' None = Inr (JStr ''sticker'') \<and>
   generateStickerName (keyedEnv (Inr (Some ''{'')) (Inl SyntaxError))
     ''data:image/png;base64,AAAA'' None = Inr (JStr ''sticker'') \<and>
   generateStickerName (keyedEnv (Inr (Some ''null'')) (Inr JNull))
     ''data:image/png;base64,AAAA'' None = Inr (JStr ''sticker'') \<and>
   generateStickerName (keyedEnv (Inr (Some ''{}'')) (Inr (JObj [])))
     ''data:image/png;base64,AAAA'' None = Inr (JStr ''sticker'') \<and>
   generateStickerName (keyedEnv (Inr (Some ''{\"filename\": \"happy_cat\"}''))
        (Inr (JObj [(''filename'', JStr ''happy_cat'')])))
     ''data:image/png;base64,AAAA'' None = Inr (JStr ''happy_cat'') \<and>
   generateStickerName (keyedEnv (Inr (Some ''[]'')) (Inr (JArr [])))
     ''data:image/png;base64,AAAA'' None = Inr (JStr ''sticker'') \<and>
   generateStickerName (keyedEnv (Inr (Some ''7'')) (Inr (JNum 7)))
     ''data:image/png;base64,AAAA'' None = Inr (JStr ''sticker'') \<and>
   generateStickerName (keyedEnv (Inr (Some ''{\"filename\": 42}''))
        (Inr (JObj [(''filename'', JNum 42)])))
     ''data:image/png;base64,AAAA'' None = Inr (JNum 42) \<and>
   JNum 42 \<noteq> JStr ''sticker''"
proof -
  have k: "getAiClient (keyedEnv r p) None = Some ''key''" for r p
    by (simp add: getAiClient_def keyedEnv_def jsOr_def truthyString_def)
  have g: "generateContent (keyedEnv r p) a i = r" "jsonParse (keyedEnv r p) t = p" for r p a i t
    by (simp_all add: keyedEnv_def)
  have n: "getAiClient \<lparr>envApiKey = None, storedApiKey = None,
                 generateContent = (\<lambda>apiKey image. Inl NetworkError),
                 jsonParse = (\<lambda>text. Inl SyntaxError)\<rparr> None = None"
    by (simp add: getAiClient_def jsOr_def truthyString_def)
  note f = generateStickerName_fallback [where base64Image = "''data:image/png;base64,AAAA''"
      and userApiKey = None]
  from f [of "\<lparr>envApiKey = None, storedApiKey = None,
                 generateContent = (\<lambda>apiKey image. Inl NetworkError),
                 jsonParse = (\<lambda>text. Inl SyntaxError)\<rparr>"] n
  have 1: "generateStickerName \<lparr>envApiKey = None, storedApiKey = None,
                 generateContent = (\<lambda>apiKey image. Inl NetworkError),
                 jsonParse = (\<lambda>text. Inl SyntaxError)\<rparr> ''data:image/png;base64,AAAA'' None
     = Inr (JStr ''sticker'')" by blast
  from f [of "keyedEnv (Inl NetworkError) (Inl SyntaxError)"] k g
  have 2: "generateStickerName (keyedEnv (Inl NetworkError) (Inl SyntaxError))
     ''data:image/png;base64,AAAA'' None = Inr (JStr ''sticker'')" by simp
  from f [of "keyedEnv (Inr None) (Inl SyntaxError)"] k g
  have 3: "generateStickerName (keyedEnv (Inr None) (Inl SyntaxError))
     ''data:image/png;base64,AAAA'' None = Inr (JStr ''sticker'')" by simp
  from f [of "keyedEnv (Inr (Some ''{'')) (Inl SyntaxError)"] k g
  have 4: "generateStickerName (keyedEnv (Inr (Some ''{'')) (Inl SyntaxError))
     ''data:image/png;base64,AAAA'' None = Inr (JStr ''sticker'')" by simp
  from f [of "keyedEnv (Inr (Some ''null'')) (Inr JNull)"] k g
  have 5: "generateStickerName (keyedEnv (Inr (Some ''null'')) (Inr JNull))
     ''data:image/png;base64,AAAA'' None = Inr (JStr ''sticker'')" by simp
  from f [of "keyedEnv (Inr (Some ''{}'')) (Inr (JObj []))"] k g
  have 6: "generateStickerName (keyedEnv (Inr (Some ''{}'')) (Inr (JObj [])))
     ''data:image/png;base64,AAAA'' None = Inr (JStr ''sticker'')"
    by (simp add: truthyJson_def)
  from f [of "keyedEnv (Inr (Some ''{\"filename\": \"happy_cat\"}''))
        (Inr (JObj [(''filename'', JStr ''happy_cat'')]))"] k g
  have 7: "generateStickerName (keyedEnv (Inr (Some ''{\"filename\": \"happy_cat\"}''))
        (Inr (JObj [(''filename'', JStr ''happy_cat'')])))
     ''data:image/png;base64,AAAA'' None = Inr (JStr ''happy_cat'')"
    by (simp add: truthyJson_def)
  from f [of "keyedEnv (Inr (Some ''[]'')) (Inr (JArr []))"] k g
  have 8: "generateStickerName (keyedEnv (Inr (Some ''[]'')) (Inr (JArr [])))
     ''data:image/png;base64,AAAA'' None = Inr (JStr ''sticker'')" by simp
  from f [of "keyedEnv (Inr (Some ''7'')) (Inr (JNum 7))"] k g
  have 9: "generateStickerName (keyedEnv (Inr (Some ''7'')) (Inr (JNum 7)))
     ''data:image/png;base64,AAAA'' None = Inr (JStr ''sticker'')" by simp
  from f [of "keyedEnv (Inr (Some ''{\"filename\": 42}''))
        (Inr (JObj [(''filename'', JNum 42)]))"] k g
  have 10: "generateStickerName (keyedEnv (Inr (Some ''{\"filename\": 42}''))
        (Inr (JObj [(''filename'', JNum 42)])))
     ''data:image/png;base64,AAAA'' None = Inr (JNum 42)"
    by (simp add: truthyJson_def)
  from n k 1 2 3 4 5 6 7 8 9 10 show ?thesis by simp
qed

text \<open>
  Claim C10. A pass that merges returns a shorter list and the loop goes on with it; a pass
  that does not merge ends the loop with its list. So the loop is a total function (its
  termination is proved with its definition), its result is no longer than its input, and
  every input rectangle lies inside some rectangle of the result.
\<close>

theorem mergeRects_terminates_covers:
  "(\<forall>newMerged. mergePass merged t = (newMerged, True) \<longrightarrow>
       length newMerged < length merged \<and> mergeLoop merged t = mergeLoop newMerged t) \<and>
   (\<forall>newMerged. mergePass merged t = (newMerged, False) \<longrightarrow> mergeLoop merged t = newMerged) \<and>
   length (mergeRects rects t) \<le> length rects \<and>
   (\<forall>r \<in> set rects. \<exists>r' \<in> set (mergeRects rects t). rectContains r' r)"
  using mergePass_changed_length [of merged t] mergeLoop_changed [of merged t]
    mergeLoop_unchanged [of merged t] mergeLoop_length [of rects t] mergeLoop_contains [of _ rects t]
  unfolding mergeRects_def by blast

theorem mergeRects_terminates_covers_witness:
  "mergePass [\<lparr>minX = 0, maxX = 19, minY = 0, maxY = 19\<rparr>,
              \<lparr>minX = 30, maxX = 49, minY = 30, maxY = 49\<rparr>] 15
     = ([\<lparr>minX = 0, maxX = 49, minY = 0, maxY = 49\<rparr>], True) \<and>
   length [\<lparr>minX = 0, maxX = 49, minY = 0, maxY = 49\<rparr>]
     < length [\<lparr>minX = 0, maxX = 19, minY = 0, maxY = 19\<rparr>,
               \<lparr>minX = 30, maxX = 49, minY = 30, maxY = 49\<rparr>] \<and>
   mergePass [\<lparr>minX = 0, maxX = 49, minY = 0, maxY = 49\<rparr>] 15
     = ([\<lparr>minX = 0, maxX = 49, minY = 0, maxY = 49\<rparr>], False) \<and>
   mergeLoop [\<lparr>minX = 0, maxX = 49, minY = 0, maxY = 49\<rparr>] 15
     = [\<lparr>minX = 0, maxX = 49, minY = 0, maxY = 49\<rparr>] \<and>
   \<lparr>minX = 30, maxX = 49, minY = 30, maxY = 49\<rparr>
     \<in> set [\<lparr>minX = 0, maxX = 19, minY = 0, maxY = 19\<rparr>,
            \<lparr>minX = 30, maxX = 49, minY = 30, maxY = 49\<rparr>] \<and>
   (\<exists>r' \<in> set (mergeRects [\<lparr>minX = 0, maxX = 19, minY = 0, maxY = 19\<rparr>,
                              \<lparr>minX = 30, maxX = 49, minY = 30, maxY = 49\<rparr>] 15).
      rectContains r' \<lparr>minX = 30, maxX = 49, minY = 30, maxY = 49\<rparr>)"
proof -
  have p1: "mergePass [\<lparr>minX = 0, maxX = 19, minY = 0, maxY = 19\<rparr>,
              \<lparr>minX = 30, maxX = 49, minY = 30, maxY = 49\<rparr>] 15
     = ([\<lparr>minX = 0, maxX = 49, minY = 0, maxY = 49\<rparr>], True)"
    by (simp add: mergePass_def mergeOuter_def mergeInner_def xDist_def yDist_def upt_rec)
  have p2: "mergePass [\<lparr>minX = 0, maxX = 49, minY = 0, maxY = 49\<rparr>] 15
     = ([\<lparr>minX = 0, maxX = 49, minY = 0, maxY = 49\<rparr>], False)"
    by (simp add: mergePass_def mergeOuter_def mergeInner_def xDist_def yDist_def upt_rec)
  show ?thesis
    using p1 p2
      mergeRects_terminates_covers [of "[\<lparr>minX = 0, maxX = 19, minY = 0, maxY = 19\<rparr>,
              \<lparr>minX = 30, maxX = 49, minY = 30, maxY = 49\<rparr>]" 15
              "[\<lparr>minX = 0, maxX = 19, minY = 0, maxY = 19\<rparr>,
              \<lparr>minX = 30, maxX = 49, minY = 30, maxY = 49\<rparr>]"]
      mergeRects_terminates_covers [of "[\<lparr>minX = 0, maxX = 49, minY = 0, maxY = 49\<rparr>]" 15 "[]"]
    by simp
qed

end
